theory Spec2Isabelle
  imports Main
begin

section \<open>The atch event emitter (src/src/index.ts)\<close>

subsection \<open>Values, keys and function identities\<close>

text \<open>
  \<^verbatim>\<open>EventType = string | symbol\<close>: a key is a string or a symbol; a symbol is never equal
  to a string. The wildcard key is the string \<^verbatim>\<open>'*'\<close>.
\<close>

datatype key = Str string | Sym nat

definition wildcard :: key where
  "wildcard = Str ''*''"

text \<open>
  The values a handler can receive: an event payload (\<open>Undefined\<close> when \<^verbatim>\<open>emit\<close> is called
  without one) or, as first argument of a wildcard handler, the event type.
\<close>

datatype val = Undefined | KeyVal key | Data int

text \<open>
  A JavaScript function value, compared by identity as \<^verbatim>\<open>indexOf\<close> does. \<open>User k\<close> is the
  \<open>k\<close>-th function of the caller; \<open>OnceHandler n t h\<close> is the closure \<^verbatim>\<open>onceHandler\<close> that the
  \<open>n\<close>-th call of \<^verbatim>\<open>once\<close> creates, with its captured \<^verbatim>\<open>type\<close> and \<^verbatim>\<open>handler\<close>.
\<close>

datatype fn = User nat | OnceHandler nat key fn

text \<open>The closure \<^verbatim>\<open>() => instance.off(type, handler)\<close> returned by \<^verbatim>\<open>on\<close>.\<close>

datatype remover = Remover key fn

text \<open>
  What the body of a caller's function may do, one statement after the other: call the
  emitter's methods, write to the exposed map \<^verbatim>\<open>all\<close>, or throw.
\<close>

datatype action =
    CallOn key fn
  | CallOnce key fn
  | CallOff key "fn option"
  | CallEmit key val
  | Throw val
  | AllSet key "fn list"
  | AllDelete key

type_synonym prog = "nat \<Rightarrow> val list \<Rightarrow> action list"

text \<open>
  One entry of the observation log: a function was called, at a given nesting depth of
  handler calls, with the given argument list.
\<close>

datatype event = Invoke nat fn "val list"

fun depth :: "event \<Rightarrow> nat" where
  "depth (Invoke d h args) = d"

subsection \<open>The state: the map \<^verbatim>\<open>all\<close> and the arrays it refers to\<close>

text \<open>
  \<^verbatim>\<open>all\<close> is a \<^verbatim>\<open>Map\<close> from keys to array objects. \<^verbatim>\<open>push\<close> and \<^verbatim>\<open>splice\<close> change an array in
  place while \<^verbatim>\<open>all.set(type, [])\<close> stores a new one, so arrays live in a store and the map
  holds references. \<open>next_ref\<close> is the next unused array reference, \<open>next_fn\<close> the number of
  \<^verbatim>\<open>onceHandler\<close> closures created so far.
\<close>

type_synonym ref = nat

record emitter =
  all :: "key \<rightharpoonup> ref"
  heap :: "ref \<Rightarrow> fn list"
  next_ref :: ref
  next_fn :: nat
  trace :: "event list"

text \<open>\<^verbatim>\<open>all = all || new Map()\<close> with no map given: nothing registered.\<close>

definition atch :: emitter where
  "atch = \<lparr>all = Map.empty, heap = (\<lambda>_. []), next_ref = 0, next_fn = 0, trace = []\<rparr>"

text \<open>Every array the map refers to has been allocated.\<close>

definition well_formed :: "emitter \<Rightarrow> bool" where
  "well_formed s \<longleftrightarrow> (\<forall>t r. all s t = Some r \<longrightarrow> r < next_ref s)"

text \<open>\<^verbatim>\<open>all.get(type)\<close>: the current contents of the array stored under the key, if any.\<close>

definition all_get :: "emitter \<Rightarrow> key \<Rightarrow> fn list option" where
  "all_get s t = (case all s t of None \<Rightarrow> None | Some r \<Rightarrow> Some (heap s r))"

text \<open>\<^verbatim>\<open>all.set(type, [x1, ..., xn])\<close> with an array literal: a new array object.\<close>

definition all_set :: "key \<Rightarrow> fn list \<Rightarrow> emitter \<Rightarrow> emitter" where
  "all_set t xs s =
     s\<lparr>all := (all s)(t \<mapsto> next_ref s),
       heap := (heap s)(next_ref s := xs),
       next_ref := Suc (next_ref s)\<rparr>"

subsection \<open>Array primitives\<close>

text \<open>\<^verbatim>\<open>Array.prototype.indexOf\<close>: the first index holding the value, or \<open>-1\<close>.\<close>

fun indexOf :: "'a list \<Rightarrow> 'a \<Rightarrow> int" where
  "indexOf [] x = - 1"
| "indexOf (y # ys) x =
     (if y = x then 0 else (let i = indexOf ys x in if i < 0 then - 1 else i + 1))"

text \<open>\<^verbatim>\<open>i >>> 0\<close>: the integer read as an unsigned 32-bit number.\<close>

definition to_uint32 :: "int \<Rightarrow> nat" where
  "to_uint32 i = nat (i mod 2 ^ 32)"

text \<open>
  \<^verbatim>\<open>xs.splice(start, n)\<close> for \<open>start \<ge> 0\<close>: a start beyond the end is clamped to the length
  and at most the elements that exist are removed, which is what \<open>take\<close> and \<open>drop\<close> do.
\<close>

definition splice_at :: "'a list \<Rightarrow> nat \<Rightarrow> nat \<Rightarrow> 'a list" where
  "splice_at xs start n = take start xs @ drop (start + n) xs"

subsection \<open>\<^verbatim>\<open>on\<close>, \<^verbatim>\<open>off\<close>, \<^verbatim>\<open>once\<close>\<close>

definition on :: "key \<Rightarrow> fn \<Rightarrow> emitter \<Rightarrow> remover \<times> emitter" where
  "on t handler s =
     (Remover t handler,
      (case all s t of
         Some r \<Rightarrow> s\<lparr>heap := (heap s)(r := heap s r @ [handler])\<rparr>
       | None \<Rightarrow> all_set t [handler] s))"

definition off :: "key \<Rightarrow> fn option \<Rightarrow> emitter \<Rightarrow> emitter" where
  "off t handler s =
     (case all s t of
        Some r \<Rightarrow>
          (case handler of
             Some h \<Rightarrow>
               s\<lparr>heap := (heap s)(r := splice_at (heap s r) (to_uint32 (indexOf (heap s r) h)) 1)\<rparr>
           | None \<Rightarrow> all_set t [] s)
      | None \<Rightarrow> s)"

text \<open>Calling the function that \<^verbatim>\<open>on\<close> returned.\<close>

fun call_remover :: "remover \<Rightarrow> emitter \<Rightarrow> emitter" where
  "call_remover (Remover t handler) s = off t (Some handler) s"

definition once :: "key \<Rightarrow> fn \<Rightarrow> emitter \<Rightarrow> remover \<times> emitter" where
  "once t handler s =
     on t (OnceHandler (next_fn s) t handler) (s\<lparr>next_fn := Suc (next_fn s)\<rparr>)"

subsection \<open>Calling handlers and \<^verbatim>\<open>emit\<close>\<close>

datatype outcome = Normal emitter | Threw val emitter | OutOfFuel

definition log :: "event \<Rightarrow> emitter \<Rightarrow> emitter" where
  "log e s = s\<lparr>trace := trace s @ [e]\<rparr>"

text \<open>A parameter that the call did not supply is \<^verbatim>\<open>undefined\<close>.\<close>

definition arg :: "val list \<Rightarrow> nat \<Rightarrow> val" where
  "arg args i = (if i < length args then args ! i else Undefined)"

text \<open>How a function value is called: the function, its arguments, the state.\<close>

type_synonym call = "fn \<Rightarrow> val list \<Rightarrow> emitter \<Rightarrow> outcome"

text \<open>
  \<^verbatim>\<open>handlers.slice().map((handler) => { handler(...) })\<close>: the copy is a list value, visited
  front to back; a handler that throws ends the loop.
\<close>

fun map_handlers :: "call \<Rightarrow> fn list \<Rightarrow> val list \<Rightarrow> emitter \<Rightarrow> outcome" where
  "map_handlers c [] args s = Normal s"
| "map_handlers c (h # hs) args s =
     (case c h args s of Normal s' \<Rightarrow> map_handlers c hs args s' | r \<Rightarrow> r)"

text \<open>The two blocks of \<^verbatim>\<open>emit\<close>, each reading the map when it starts.\<close>

definition type_phase :: "call \<Rightarrow> key \<Rightarrow> val \<Rightarrow> emitter \<Rightarrow> outcome" where
  "type_phase c t evt s =
     (case all_get s t of
        None \<Rightarrow> Normal s
      | Some handlers \<Rightarrow> map_handlers c handlers [evt] s)"

definition wildcard_phase :: "call \<Rightarrow> key \<Rightarrow> val \<Rightarrow> emitter \<Rightarrow> outcome" where
  "wildcard_phase c t evt s =
     (case all_get s wildcard of
        None \<Rightarrow> Normal s
      | Some handlers \<Rightarrow> map_handlers c handlers [KeyVal t, evt] s)"

definition emit_with :: "call \<Rightarrow> key \<Rightarrow> val \<Rightarrow> emitter \<Rightarrow> outcome" where
  "emit_with c t evt s =
     (case type_phase c t evt s of
        Normal s1 \<Rightarrow> wildcard_phase c t evt s1
      | r \<Rightarrow> r)"

fun perform :: "call \<Rightarrow> action \<Rightarrow> emitter \<Rightarrow> outcome" where
  "perform c (CallOn t h) s = Normal (snd (on t h s))"
| "perform c (CallOnce t h) s = Normal (snd (once t h s))"
| "perform c (CallOff t ho) s = Normal (off t ho s)"
| "perform c (CallEmit t v) s = emit_with c t v s"
| "perform c (Throw v) s = Threw v s"
| "perform c (AllSet t xs) s = Normal (all_set t xs s)"
| "perform c (AllDelete t) s = Normal (s\<lparr>all := (all s)(t := None)\<rparr>)"

fun run :: "call \<Rightarrow> action list \<Rightarrow> emitter \<Rightarrow> outcome" where
  "run c [] s = Normal s"
| "run c (a # as) s = (case perform c a s of Normal s' \<Rightarrow> run c as s' | r \<Rightarrow> r)"

text \<open>
  Calling a function value at nesting depth \<open>d\<close>. A caller's function \<open>User k\<close> runs its body
  \<open>P k args\<close>; the closure of \<^verbatim>\<open>once\<close> runs
  \<^verbatim>\<open>instance.off(type, onceHandler); return handler(arg0, arg1)\<close>.
  Handlers can emit again without bound, so the number of nested calls is limited by fuel.
\<close>

fun invoke :: "nat \<Rightarrow> prog \<Rightarrow> nat \<Rightarrow> fn \<Rightarrow> val list \<Rightarrow> emitter \<Rightarrow> outcome" where
  "invoke 0 P d h args s = OutOfFuel"
| "invoke (Suc f) P d (User k) args s =
     run (invoke f P (Suc d)) (P k args) (log (Invoke d (User k) args) s)"
| "invoke (Suc f) P d (OnceHandler n t h) args s =
     invoke f P (Suc d) h [arg args 0, arg args 1]
       (off t (Some (OnceHandler n t h)) (log (Invoke d (OnceHandler n t h) args) s))"

definition emit :: "nat \<Rightarrow> prog \<Rightarrow> nat \<Rightarrow> key \<Rightarrow> val \<Rightarrow> emitter \<Rightarrow> outcome" where
  "emit f P d t evt s = emit_with (invoke f P d) t evt s"

subsection \<open>Observations\<close>

text \<open>The handlers currently stored under a key; none when the key has no entry.\<close>

definition handlers_of :: "emitter \<Rightarrow> key \<Rightarrow> fn list" where
  "handlers_of s t = (case all_get s t of None \<Rightarrow> [] | Some xs \<Rightarrow> xs)"

text \<open>The state an outcome ends in, when there is one.\<close>

fun final :: "outcome \<Rightarrow> emitter option" where
  "final (Normal s) = Some s"
| "final (Threw v s) = Some s"
| "final OutOfFuel = None"

text \<open>The calls logged between two states, and those made at one nesting depth.\<close>

definition new_events :: "emitter \<Rightarrow> emitter \<Rightarrow> event list" where
  "new_events s s' = drop (length (trace s)) (trace s')"

definition direct :: "nat \<Rightarrow> event list \<Rightarrow> event list" where
  "direct d es = filter (\<lambda>e. depth e = d) es"

text \<open>Appending calls to the log.\<close>

definition logs :: "event list \<Rightarrow> emitter \<Rightarrow> emitter" where
  "logs es s = s\<lparr>trace := trace s @ es\<rparr>"

text \<open>JavaScript arrays hold fewer than \<open>2\<^sup>3\<^sup>2\<close> elements.\<close>

definition array_sized :: "'a list \<Rightarrow> bool" where
  "array_sized xs \<longleftrightarrow> length xs < 2 ^ 32"

text \<open>\<^verbatim>\<open>on(type, h1); ...; on(type, hn)\<close>.\<close>

fun on_all :: "key \<Rightarrow> fn list \<Rightarrow> emitter \<Rightarrow> emitter" where
  "on_all t [] s = s"
| "on_all t (h # hs) s = on_all t hs (snd (on t h s))"

subsection \<open>Shape of the log\<close>

text \<open>
  Between two states the log only grows, by calls at depth \<open>d\<close> or deeper; and a way of
  calling functions logs the call itself at depth \<open>d\<close>, then only deeper calls.
\<close>

definition grows :: "nat \<Rightarrow> emitter \<Rightarrow> emitter \<Rightarrow> bool" where
  "grows d s s' \<longleftrightarrow> (\<exists>es. trace s' = trace s @ es \<and> (\<forall>e\<in>set es. d \<le> depth e))"

definition call_logs :: "nat \<Rightarrow> call \<Rightarrow> bool" where
  "call_logs d c \<longleftrightarrow>
     (\<forall>h args s s'. final (c h args s) = Some s' \<longrightarrow>
        (\<exists>es. trace s' = trace s @ Invoke d h args # es \<and> (\<forall>e\<in>set es. d < depth e)))"

subsection \<open>Fuel\<close>

text \<open>One way of calling functions agrees with another wherever the first gives an outcome.\<close>

definition call_le :: "call \<Rightarrow> call \<Rightarrow> bool" where
  "call_le c c' \<longleftrightarrow> (\<forall>h args s. c h args s \<noteq> OutOfFuel \<longrightarrow> c' h args s = c h args s)"

subsection \<open>Handlers that leave the emitter alone\<close>

text \<open>
  A statement that neither calls \<^verbatim>\<open>on\<close>, \<^verbatim>\<open>once\<close> or \<^verbatim>\<open>off\<close> nor writes to the exposed map;
  a logged call of a caller's function whose body, for the arguments of that call, consists
  of such statements. The closure of \<^verbatim>\<open>once\<close> calls \<^verbatim>\<open>off\<close>.
\<close>

fun quiet_action :: "action \<Rightarrow> bool" where
  "quiet_action (CallEmit t v) = True"
| "quiet_action (Throw v) = True"
| "quiet_action a = False"

fun quiet_event :: "prog \<Rightarrow> event \<Rightarrow> bool" where
  "quiet_event P (Invoke d (User k) args) = list_all quiet_action (P k args)"
| "quiet_event P (Invoke d (OnceHandler n t h) args) = False"

text \<open>Two states that differ at most in the log.\<close>

definition frame :: "emitter \<Rightarrow> emitter \<Rightarrow> bool" where
  "frame s s' \<longleftrightarrow> s' = s\<lparr>trace := trace s'\<rparr>"

definition call_frame :: "prog \<Rightarrow> call \<Rightarrow> bool" where
  "call_frame P c \<longleftrightarrow>
     (\<forall>h args s s'. final (c h args s) = Some s' \<longrightarrow>
        (\<forall>e\<in>set (new_events s s'). quiet_event P e) \<longrightarrow> frame s s')"

subsection \<open>Handlers that return\<close>





subsection \<open>A scenario for \<^verbatim>\<open>once\<close>\<close>

text \<open>The function of a logged call.\<close>

fun fn_of :: "event \<Rightarrow> fn" where
  "fn_of (Invoke d h args) = h"

text \<open>A caller's function whose body is empty, whatever it is called with.\<close>

fun idle :: "prog \<Rightarrow> fn \<Rightarrow> bool" where
  "idle P (User j) = (\<forall>args. P j args = [])"
| "idle P (OnceHandler n t h) = False"

text \<open>
  What an emission logs at depth \<open>d\<close> when the list of the key is \<open>hs\<close>, the wildcard list
  is \<open>ws\<close> and all of them have empty bodies.
\<close>

definition emit_events :: "nat \<Rightarrow> key \<Rightarrow> val \<Rightarrow> fn list \<Rightarrow> fn list \<Rightarrow> event list" where
  "emit_events d t evt hs ws =
     map (\<lambda>h. Invoke d h [evt]) hs @ map (\<lambda>w. Invoke d w [KeyVal t, evt]) ws"

text \<open>
  A body that only emits the key \<open>t\<close> again, and what such emissions log.
\<close>

fun emits_only :: "key \<Rightarrow> action \<Rightarrow> bool" where
  "emits_only t (CallEmit t' v) = (t' = t)"
| "emits_only t a = False"

fun reemit_events :: "nat \<Rightarrow> fn list \<Rightarrow> fn list \<Rightarrow> action list \<Rightarrow> event list" where
  "reemit_events d hs ws [] = []"
| "reemit_events d hs ws (CallEmit t v # as) = emit_events d t v hs ws @ reemit_events d hs ws as"
| "reemit_events d hs ws (a # as) = reemit_events d hs ws as"

subsection \<open>Example scenarios\<close>

definition foo :: key where
  "foo = Str ''foo''"

definition bar :: key where
  "bar = Str ''bar''"

text \<open>The same function registered twice under one key of a new emitter.\<close>

definition ex_reg1 :: "remover \<times> emitter" where
  "ex_reg1 = on foo (User 0) atch"

definition ex_reg2 :: "remover \<times> emitter" where
  "ex_reg2 = on foo (User 0) (snd ex_reg1)"


definition P_throw :: prog where
  "P_throw k args = (if k = 1 then [Throw (Data 13)] else [])"

definition P_mut :: prog where
  "P_mut k args =
     (if k = 0 then [CallOff foo (Some (User 1)), CallOn foo (User 2), CallOn wildcard (User 3)]
      else [])"

text \<open>
  A new emitter with three wildcard handlers, then also three handlers under \<^verbatim>\<open>'foo'\<close>.
\<close>

definition ex_wild :: emitter where
  "ex_wild = on_all wildcard [User 2, User 1, User 0] atch"

definition ex_three :: emitter where
  "ex_three = on_all foo [User 0, User 1, User 2] ex_wild"

text \<open>
  Two handlers under \<^verbatim>\<open>'foo'\<close>, and the states after each round of \<^verbatim>\<open>emit('foo', 7)\<close> when
  the first handler changes the lists.
\<close>

definition ex_mut :: emitter where
  "ex_mut = on_all foo [User 0, User 1] atch"

definition ex_mut_mid :: emitter where
  "ex_mut_mid = (case type_phase (invoke 1 P_mut 0) foo (Data 7) ex_mut of
                   Normal s \<Rightarrow> s | _ \<Rightarrow> ex_mut)"

definition ex_mut_end :: emitter where
  "ex_mut_end = (case emit 1 P_mut 0 foo (Data 7) ex_mut of Normal s \<Rightarrow> s | _ \<Rightarrow> ex_mut)"

text \<open>A new emitter after \<^verbatim>\<open>once('foo', f0)\<close>.\<close>

definition ex_once :: emitter where
  "ex_once = snd (once foo (User 0) atch)"

text \<open>A handler that emits another event, to which a throwing wildcard handler listens.\<close>

definition P_again :: prog where
  "P_again k args =
     (if k = 0 \<and> args = [Data 7] then [CallEmit bar (Data 8)]
      else if k = 1 then [Throw (Data 13)] else [])"

definition ex_quiet :: emitter where
  "ex_quiet = on_all wildcard [User 1] (on_all foo [User 0] atch)"

definition ex_quiet_end :: emitter where
  "ex_quiet_end = logs [Invoke 0 (User 0) [Data 7], Invoke 1 (User 1) [KeyVal bar, Data 8]] ex_quiet"

text \<open>
  \<^verbatim>\<open>once('foo', h)\<close> on an emitter with three handlers under \<^verbatim>\<open>'foo'\<close> and three wildcard
  handlers, where \<open>h\<close> emits \<^verbatim>\<open>'foo'\<close> again; then two emissions of \<^verbatim>\<open>'foo'\<close>.
\<close>

definition P_reemit :: prog where
  "P_reemit k args = (if k = 5 then [CallEmit foo (Data 8)] else [])"

definition ex_fire_w :: fn where
  "ex_fire_w = OnceHandler 0 foo (User 5)"

definition ex_fire_s0 :: emitter where
  "ex_fire_s0 = snd (once foo (User 5) ex_three)"

definition ex_fire_s1 :: emitter where
  "ex_fire_s1 =
     logs [Invoke 0 (User 0) [Data 7], Invoke 0 (User 1) [Data 7], Invoke 0 (User 2) [Data 7],
           Invoke 0 ex_fire_w [Data 7], Invoke 1 (User 5) [Data 7, Undefined],
           Invoke 2 (User 0) [Data 8], Invoke 2 (User 1) [Data 8], Invoke 2 (User 2) [Data 8],
           Invoke 2 (User 2) [KeyVal foo, Data 8], Invoke 2 (User 1) [KeyVal foo, Data 8],
           Invoke 2 (User 0) [KeyVal foo, Data 8],
           Invoke 0 (User 2) [KeyVal foo, Data 7], Invoke 0 (User 1) [KeyVal foo, Data 7],
           Invoke 0 (User 0) [KeyVal foo, Data 7]]
       (off foo (Some ex_fire_w) ex_fire_s0)"

definition ex_fire_s2 :: emitter where
  "ex_fire_s2 =
     logs [Invoke 0 (User 0) [Data 9], Invoke 0 (User 1) [Data 9], Invoke 0 (User 2) [Data 9],
           Invoke 0 (User 2) [KeyVal foo, Data 9], Invoke 0 (User 1) [KeyVal foo, Data 9],
           Invoke 0 (User 0) [KeyVal foo, Data 9]]
       ex_fire_s1"


definition P_nest :: prog where
  "P_nest k args = (if k = 0 \<and> args = [Data 7] then [CallEmit foo (Data 8)] else [])"




definition ex_nest :: emitter where
  "ex_nest = snd (once foo (User 5) (snd (on foo (User 0) atch)))"












section \<open>Array primitives: proofs\<close>

lemma indexOf_notin: "x \<notin> set xs \<Longrightarrow> indexOf xs x = - 1"
  by (induction xs) auto

lemma indexOf_in: "x \<in> set xs \<Longrightarrow> 0 \<le> indexOf xs x \<and> indexOf xs x < int (length xs)"
  by (induction xs) (auto simp: Let_def)

lemma splice_indexOf_in:
  "x \<in> set xs \<Longrightarrow> splice_at xs (nat (indexOf xs x)) 1 = remove1 x xs"
proof (induction xs)
  case Nil
  then show ?case by simp
next
  case (Cons y ys)
  show ?case
  proof (cases "y = x")
    case True
    then show ?thesis by (simp add: splice_at_def)
  next
    case False
    with Cons.prems have mem: "x \<in> set ys" by simp
    from indexOf_in [OF mem] have nonneg: "0 \<le> indexOf ys x" by simp
    then have "nat (indexOf ys x + 1) = Suc (nat (indexOf ys x))" by simp
    with False nonneg Cons.IH [OF mem] show ?thesis
      by (simp add: splice_at_def Let_def)
  qed
qed

lemma splice_uint32_indexOf:
  assumes "array_sized xs"
  shows "splice_at xs (to_uint32 (indexOf xs x)) 1 = remove1 x xs"
proof (cases "x \<in> set xs")
  case True
  from indexOf_in [OF True] assms have "indexOf xs x mod 2 ^ 32 = indexOf xs x"
    by (simp add: array_sized_def)
  with splice_indexOf_in [OF True] show ?thesis by (simp add: to_uint32_def)
next
  case False
  then have "to_uint32 (indexOf xs x) = 4294967295"
    by (simp add: indexOf_notin to_uint32_def)
  with False assms show ?thesis by (simp add: splice_at_def remove1_idem array_sized_def)
qed

section \<open>Registering\<close>

lemma all_get_on: "all_get (snd (on t h s)) t = Some (handlers_of s t @ [h])"
  by (simp add: on_def all_get_def handlers_of_def all_set_def split: option.splits)

lemma handlers_of_on: "handlers_of (snd (on t h s)) t = handlers_of s t @ [h]"
  by (simp add: all_get_on handlers_of_def)

lemma handlers_of_atch: "handlers_of atch t = []"
  by (simp add: handlers_of_def all_get_def atch_def)

lemma off_no_entry: "all s t = None \<Longrightarrow> off t ho s = s"
  by (simp add: off_def)

lemma off_handler_heap:
  assumes "all s t = Some r" and "array_sized (heap s r)"
  shows "off t (Some h) s = s\<lparr>heap := (heap s)(r := remove1 h (heap s r))\<rparr>"
  unfolding off_def using assms(1) splice_uint32_indexOf [OF assms(2), of h] by simp

lemma array_sized_remove1: "array_sized xs \<Longrightarrow> array_sized (remove1 h xs)"
  unfolding array_sized_def using length_remove1 [of h xs]
  by (simp split: if_splits)

lemma off_handler_get:
  assumes "all_get s t = Some xs" and "array_sized xs"
  shows "all_get (off t (Some h) s) t = Some (remove1 h xs)"
proof -
  from assms(1) obtain r where r: "all s t = Some r" and xs: "heap s r = xs"
    by (auto simp: all_get_def split: option.splits)
  from off_handler_heap [OF r] assms(2) xs
  have "off t (Some h) s = s\<lparr>heap := (heap s)(r := remove1 h xs)\<rparr>" by simp
  then show ?thesis by (simp add: all_get_def r)
qed

lemma off_handler_absent:
  assumes "all_get s t = Some xs" and "array_sized xs" and "h \<notin> set xs"
  shows "off t (Some h) s = s"
proof -
  from assms(1) obtain r where r: "all s t = Some r" and xs: "heap s r = xs"
    by (auto simp: all_get_def split: option.splits)
  from off_handler_heap [OF r] assms(2) xs
  have "off t (Some h) s = s\<lparr>heap := (heap s)(r := remove1 h xs)\<rparr>" by simp
  with assms(3) xs show ?thesis by (auto simp: remove1_idem)
qed

lemma off_handler_all: "all (off t (Some h) s) = all s"
  by (simp add: off_def split: option.splits)

lemma well_formed_atch: "well_formed atch"
  by (simp add: well_formed_def atch_def)

lemma well_formed_on: "well_formed s \<Longrightarrow> well_formed (snd (on t h s))"
  by (auto simp: well_formed_def on_def all_set_def less_Suc_eq split: option.splits if_splits)

section \<open>The log of an emission\<close>

lemma grows_refl: "grows d s s"
  by (simp add: grows_def)

lemma grows_trans: "grows d s s1 \<Longrightarrow> grows d s1 s2 \<Longrightarrow> grows d s s2"
  unfolding grows_def by (elim exE conjE) (rule_tac x = "es @ esa" in exI, auto)

lemma grows_same_trace: "trace s' = trace s \<Longrightarrow> grows d s s'"
  by (simp add: grows_def)

lemma grows_less: "grows (Suc d) s s' \<Longrightarrow> grows d s s'"
  unfolding grows_def by (elim exE conjE) (rule_tac x = es in exI, auto)

lemma new_events_append: "trace s' = trace s @ es \<Longrightarrow> new_events s s' = es"
  by (simp add: new_events_def)

lemma trace_on: "trace (snd (on t h s)) = trace s"
  by (simp add: on_def all_set_def split: option.splits)

lemma trace_off: "trace (off t ho s) = trace s"
  by (simp add: off_def all_set_def split: option.splits)

lemma trace_once: "trace (snd (once t h s)) = trace s"
  by (simp add: once_def trace_on)

lemma trace_all_set: "trace (all_set t xs s) = trace s"
  by (simp add: all_set_def)

lemma call_logs_grows:
  "call_logs d c \<Longrightarrow> final (c h args s) = Some s' \<Longrightarrow> grows d s s'"
  unfolding call_logs_def grows_def
  by (drule spec [of _ h], drule spec [of _ args], drule spec [of _ s], drule spec [of _ s'])
     (auto simp: less_imp_le)

lemma direct_deeper: "\<forall>e\<in>set es. d < depth e \<Longrightarrow> direct d es = []"
  by (induction es) (auto simp: direct_def)

lemma direct_append: "direct d (xs @ ys) = direct d xs @ direct d ys"
  by (simp add: direct_def)

lemma direct_Cons: "direct d (Invoke d h args # es) = Invoke d h args # direct d es"
  by (simp add: direct_def)

lemma map_handlers_Normal:
  assumes "call_logs d c" and "map_handlers c hs args s = Normal s'"
  shows "\<exists>es. trace s' = trace s @ es \<and> (\<forall>e\<in>set es. d \<le> depth e)
            \<and> direct d es = map (\<lambda>h. Invoke d h args) hs"
  using assms(2)
proof (induction hs arbitrary: s)
  case Nil
  then show ?case by (simp add: direct_def)
next
  case (Cons h hs)
  from Cons.prems obtain s1 where c: "c h args s = Normal s1"
    and rest: "map_handlers c hs args s1 = Normal s'"
    by (auto split: outcome.splits)
  from assms(1) c obtain es1 where es1: "trace s1 = trace s @ Invoke d h args # es1"
    and deep: "\<forall>e\<in>set es1. d < depth e"
    unfolding call_logs_def by (metis final.simps(1))
  from Cons.IH [OF rest] obtain es2 where es2: "trace s' = trace s1 @ es2"
    and ge: "\<forall>e\<in>set es2. d \<le> depth e"
    and dir: "direct d es2 = map (\<lambda>h. Invoke d h args) hs"
    by blast
  let ?es = "Invoke d h args # es1 @ es2"
  have "trace s' = trace s @ ?es" by (simp add: es1 es2)
  moreover have "\<forall>e\<in>set ?es. d \<le> depth e" using deep ge by (auto simp: less_imp_le)
  moreover have "direct d ?es = map (\<lambda>h. Invoke d h args) (h # hs)"
    by (simp add: direct_Cons direct_append direct_deeper [OF deep] dir)
  ultimately show ?case by blast
qed

lemma map_handlers_Threw:
  assumes "call_logs d c" and "map_handlers c hs args s = Threw v s'"
  shows "\<exists>hs1 h hs2 s0 es. hs = hs1 @ h # hs2
            \<and> map_handlers c hs1 args s = Normal s0 \<and> c h args s0 = Threw v s'
            \<and> trace s' = trace s @ es \<and> (\<forall>e\<in>set es. d \<le> depth e)
            \<and> direct d es = map (\<lambda>h. Invoke d h args) (hs1 @ [h])"
  using assms(2)
proof (induction hs arbitrary: s)
  case Nil
  then show ?case by simp
next
  case (Cons h hs)
  show ?case
  proof (cases "c h args s")
    case (Normal s1)
    with Cons.prems have rest: "map_handlers c hs args s1 = Threw v s'" by simp
    from assms(1) Normal obtain es1 where es1: "trace s1 = trace s @ Invoke d h args # es1"
      and deep: "\<forall>e\<in>set es1. d < depth e"
      unfolding call_logs_def by (metis final.simps(1))
    from Cons.IH [OF rest] obtain hs1 h' hs2 s0 es2 where
      split: "hs = hs1 @ h' # hs2" and pre: "map_handlers c hs1 args s1 = Normal s0"
      and thr: "c h' args s0 = Threw v s'" and es2: "trace s' = trace s1 @ es2"
      and ge: "\<forall>e\<in>set es2. d \<le> depth e"
      and dir: "direct d es2 = map (\<lambda>h. Invoke d h args) (hs1 @ [h'])"
      by blast
    let ?es = "Invoke d h args # es1 @ es2"
    have "h # hs = (h # hs1) @ h' # hs2" by (simp add: split)
    moreover have "map_handlers c (h # hs1) args s = Normal s0" by (simp add: Normal pre)
    moreover have "trace s' = trace s @ ?es" by (simp add: es1 es2)
    moreover have "\<forall>e\<in>set ?es. d \<le> depth e" using deep ge by (auto simp: less_imp_le)
    moreover have "direct d ?es = map (\<lambda>h. Invoke d h args) ((h # hs1) @ [h'])"
      by (simp add: direct_Cons direct_append direct_deeper [OF deep] dir)
    ultimately show ?thesis using thr by blast
  next
    case (Threw w s1)
    with Cons.prems have eq: "w = v" "s1 = s'" by simp_all
    from assms(1) Threw eq obtain es1 where es1: "trace s' = trace s @ Invoke d h args # es1"
      and deep: "\<forall>e\<in>set es1. d < depth e"
      unfolding call_logs_def by (metis final.simps(2))
    let ?es = "Invoke d h args # es1"
    have "h # hs = [] @ h # hs" by simp
    moreover have "map_handlers c [] args s = Normal s" by simp
    moreover have "c h args s = Threw v s'" using Threw eq by simp
    moreover have "\<forall>e\<in>set ?es. d \<le> depth e" using deep by (auto simp: less_imp_le)
    moreover have "direct d ?es = map (\<lambda>h. Invoke d h args) ([] @ [h])"
      by (simp add: direct_Cons direct_deeper [OF deep])
    ultimately show ?thesis using es1 by blast
  next
    case OutOfFuel
    with Cons.prems show ?thesis by simp
  qed
qed

lemma map_handlers_grows:
  assumes "call_logs d c" and "final (map_handlers c hs args s) = Some s'"
  shows "grows d s s'"
proof (cases "map_handlers c hs args s")
  case (Normal s1)
  with assms(2) have "s1 = s'" by simp
  with map_handlers_Normal [OF assms(1)] Normal show ?thesis
    unfolding grows_def by blast
next
  case (Threw v s1)
  with assms(2) have "s1 = s'" by simp
  with map_handlers_Threw [OF assms(1)] Threw show ?thesis
    unfolding grows_def by blast
next
  case OutOfFuel
  with assms(2) show ?thesis by simp
qed

lemma type_phase_grows:
  assumes "call_logs d c" and "final (type_phase c t evt s) = Some s'"
  shows "grows d s s'"
  using assms(2) map_handlers_grows [OF assms(1)]
  by (auto simp: type_phase_def grows_refl split: option.splits)

lemma wildcard_phase_grows:
  assumes "call_logs d c" and "final (wildcard_phase c t evt s) = Some s'"
  shows "grows d s s'"
  using assms(2) map_handlers_grows [OF assms(1)]
  by (auto simp: wildcard_phase_def grows_refl split: option.splits)

lemma emit_with_grows:
  assumes "call_logs d c" and "final (emit_with c t evt s) = Some s'"
  shows "grows d s s'"
proof (cases "type_phase c t evt s")
  case (Normal s1)
  then have "final (type_phase c t evt s) = Some s1" by simp
  then have "grows d s s1" by (rule type_phase_grows [OF assms(1)])
  moreover from Normal assms(2) have "final (wildcard_phase c t evt s1) = Some s'"
    by (simp add: emit_with_def)
  then have "grows d s1 s'" by (rule wildcard_phase_grows [OF assms(1)])
  ultimately show ?thesis by (rule grows_trans)
next
  case (Threw v s1)
  with assms(2) type_phase_grows [OF assms(1), of t evt s s'] show ?thesis
    by (simp add: emit_with_def)
next
  case OutOfFuel
  with assms(2) show ?thesis by (simp add: emit_with_def)
qed

lemma perform_grows:
  assumes "call_logs d c" and "final (perform c a s) = Some s'"
  shows "grows d s s'"
proof (cases a)
  case (CallEmit t v)
  with assms(2) emit_with_grows [OF assms(1)] show ?thesis by simp
qed (use assms(2) in \<open>auto intro!: grows_same_trace simp: trace_on trace_off trace_once trace_all_set\<close>)

lemma run_grows:
  assumes "call_logs d c" and "final (run c as s) = Some s'"
  shows "grows d s s'"
  using assms(2)
proof (induction as arbitrary: s)
  case Nil
  then show ?case by (simp add: grows_refl)
next
  case (Cons a as)
  show ?case
  proof (cases "perform c a s")
    case (Normal s1)
    then have "final (perform c a s) = Some s1" by simp
    then have "grows d s s1" by (rule perform_grows [OF assms(1)])
    moreover from Normal Cons.prems have "final (run c as s1) = Some s'" by simp
    then have "grows d s1 s'" by (rule Cons.IH)
    ultimately show ?thesis by (rule grows_trans)
  next
    case (Threw v s1)
    with Cons.prems perform_grows [OF assms(1), of a s s'] show ?thesis by simp
  next
    case OutOfFuel
    with Cons.prems show ?thesis by simp
  qed
qed

lemma call_logsI:
  assumes "\<And>h args s s'. final (c h args s) = Some s' \<Longrightarrow>
             grows (Suc d) (log (Invoke d h args) s) s'"
  shows "call_logs d c"
  unfolding call_logs_def
proof (intro allI impI)
  fix h args s s'
  assume "final (c h args s) = Some s'"
  from assms [OF this] obtain es where "trace s' = trace s @ Invoke d h args # es"
    and "\<forall>e\<in>set es. Suc d \<le> depth e"
    by (auto simp: grows_def log_def)
  then show "\<exists>es. trace s' = trace s @ Invoke d h args # es \<and> (\<forall>e\<in>set es. d < depth e)"
    by (auto simp: Suc_le_eq)
qed

lemma invoke_logs: "call_logs d (invoke f P d)"
proof (induction f arbitrary: d)
  case 0
  show ?case by (simp add: call_logs_def)
next
  case (Suc f)
  show ?case
  proof (rule call_logsI)
    fix h args s s'
    assume fin: "final (invoke (Suc f) P d h args s) = Some s'"
    show "grows (Suc d) (log (Invoke d h args) s) s'"
    proof (cases h)
      case (User k)
      with fin have "final (run (invoke f P (Suc d)) (P k args) (log (Invoke d h args) s)) = Some s'"
        by simp
      then show ?thesis by (rule run_grows [OF Suc.IH [of "Suc d"]])
    next
      case (OnceHandler n t g)
      let ?s0 = "off t (Some h) (log (Invoke d h args) s)"
      from fin OnceHandler
      have "final (invoke f P (Suc d) g [arg args 0, arg args 1] ?s0) = Some s'" by simp
      then have "grows (Suc d) ?s0 s'"
        by (rule call_logs_grows [OF Suc.IH [of "Suc d"]])
      moreover have "grows (Suc d) (log (Invoke d h args) s) ?s0"
        by (rule grows_same_trace) (simp add: trace_off)
      ultimately show ?thesis using grows_trans by blast
    qed
  qed
qed

section \<open>More fuel does not change an outcome\<close>

lemma map_handlers_more_fuel:
  assumes "call_le c c'" and "map_handlers c hs args s \<noteq> OutOfFuel"
  shows "map_handlers c' hs args s = map_handlers c hs args s"
  using assms(2)
proof (induction hs arbitrary: s)
  case Nil
  show ?case by simp
next
  case (Cons h hs)
  from Cons.prems have "c h args s \<noteq> OutOfFuel" by (auto split: outcome.splits)
  with assms(1) have same: "c' h args s = c h args s" by (simp add: call_le_def)
  show ?case
  proof (cases "c h args s")
    case (Normal s1)
    with Cons.prems have "map_handlers c hs args s1 \<noteq> OutOfFuel" by simp
    from Cons.IH [OF this] Normal same show ?thesis by simp
  qed (simp_all add: same)
qed

lemma type_phase_more_fuel:
  assumes "call_le c c'" and "type_phase c t evt s \<noteq> OutOfFuel"
  shows "type_phase c' t evt s = type_phase c t evt s"
  using assms(2) map_handlers_more_fuel [OF assms(1)]
  by (simp add: type_phase_def split: option.splits)

lemma wildcard_phase_more_fuel:
  assumes "call_le c c'" and "wildcard_phase c t evt s \<noteq> OutOfFuel"
  shows "wildcard_phase c' t evt s = wildcard_phase c t evt s"
  using assms(2) map_handlers_more_fuel [OF assms(1)]
  by (simp add: wildcard_phase_def split: option.splits)

lemma emit_with_more_fuel:
  assumes "call_le c c'" and "emit_with c t evt s \<noteq> OutOfFuel"
  shows "emit_with c' t evt s = emit_with c t evt s"
proof -
  from assms(2) have ty: "type_phase c t evt s \<noteq> OutOfFuel"
    by (auto simp: emit_with_def)
  note same = type_phase_more_fuel [OF assms(1) ty]
  show ?thesis
  proof (cases "type_phase c t evt s")
    case (Normal s1)
    with assms(2) have "wildcard_phase c t evt s1 \<noteq> OutOfFuel" by (simp add: emit_with_def)
    from wildcard_phase_more_fuel [OF assms(1) this] Normal same show ?thesis
      by (simp add: emit_with_def)
  qed (simp_all add: emit_with_def same)
qed

lemma perform_more_fuel:
  assumes "call_le c c'" and "perform c a s \<noteq> OutOfFuel"
  shows "perform c' a s = perform c a s"
  using assms(2) emit_with_more_fuel [OF assms(1)] by (cases a) simp_all

lemma run_more_fuel:
  assumes "call_le c c'" and "run c as s \<noteq> OutOfFuel"
  shows "run c' as s = run c as s"
  using assms(2)
proof (induction as arbitrary: s)
  case Nil
  show ?case by simp
next
  case (Cons a as)
  from Cons.prems have "perform c a s \<noteq> OutOfFuel" by (auto split: outcome.splits)
  note same = perform_more_fuel [OF assms(1) this]
  show ?case
  proof (cases "perform c a s")
    case (Normal s1)
    with Cons.prems have "run c as s1 \<noteq> OutOfFuel" by simp
    from Cons.IH [OF this] Normal same show ?thesis by simp
  qed (simp_all add: same)
qed

lemma invoke_Suc_fuel: "call_le (invoke f P d) (invoke (Suc f) P d)"
proof (induction f arbitrary: d)
  case 0
  show ?case by (simp add: call_le_def)
next
  case (Suc f)
  show ?case
    unfolding call_le_def
  proof (intro allI impI)
    fix h args s
    assume ret: "invoke (Suc f) P d h args s \<noteq> OutOfFuel"
    show "invoke (Suc (Suc f)) P d h args s = invoke (Suc f) P d h args s"
    proof (cases h)
      case (User k)
      with ret run_more_fuel [OF Suc.IH [of "Suc d"]] show ?thesis by simp
    next
      case (OnceHandler n t g)
      with ret Suc.IH [of "Suc d"] show ?thesis by (simp add: call_le_def)
    qed
  qed
qed

lemma invoke_more_fuel:
  "invoke f P d h args s \<noteq> OutOfFuel \<Longrightarrow> invoke (f + n) P d h args s = invoke f P d h args s"
proof (induction n)
  case 0
  show ?case by simp
next
  case (Suc n)
  then have "invoke (f + n) P d h args s \<noteq> OutOfFuel" by simp
  with invoke_Suc_fuel [of "f + n" P d] Suc show ?case by (simp add: call_le_def)
qed

lemma emit_more_fuel:
  assumes "emit f P d t evt s \<noteq> OutOfFuel"
  shows "emit (f + n) P d t evt s = emit f P d t evt s"
proof -
  have "call_le (invoke f P d) (invoke (f + n) P d)"
    by (simp add: call_le_def invoke_more_fuel)
  from emit_with_more_fuel [OF this] assms show ?thesis by (simp add: emit_def)
qed

section \<open>Removing handlers\<close>

text \<open>
  Claim C5. \<^verbatim>\<open>off(type, h)\<close> on a key that has a list removes exactly the first
  occurrence of \<open>h\<close> from that list and leaves the map itself as it was, so a list emptied
  this way stays present; when \<open>h\<close> is not in the list nothing changes; a second call
  removes the next occurrence.
\<close>

theorem off_removes_first_occurrence:
  assumes "all_get s t = Some xs" and "array_sized xs"
  shows "all_get (off t (Some h) s) t = Some (remove1 h xs)
       \<and> all (off t (Some h) s) = all s
       \<and> (h \<notin> set xs \<longrightarrow> off t (Some h) s = s)
       \<and> all_get (off t (Some h) (off t (Some h) s)) t = Some (remove1 h (remove1 h xs))"
proof -
  have one: "all_get (off t (Some h) s) t = Some (remove1 h xs)"
    using assms by (rule off_handler_get)
  have two: "all_get (off t (Some h) (off t (Some h) s)) t = Some (remove1 h (remove1 h xs))"
    using one array_sized_remove1 [OF assms(2)] by (rule off_handler_get)
  from one two off_handler_all off_handler_absent [OF assms] show ?thesis
    by blast
qed

lemma ex_reg2_get: "all_get (snd ex_reg2) foo = Some [User 0, User 0]"
  by (simp add: ex_reg2_def ex_reg1_def all_get_on handlers_of_on handlers_of_atch)

theorem off_removes_first_occurrence_witness:
  "all_get (off foo (Some (User 0)) (snd ex_reg2)) foo = Some [User 0]
   \<and> all_get (off foo (Some (User 0)) (off foo (Some (User 0)) (snd ex_reg2))) foo = Some []
   \<and> off foo (Some (User 1)) (snd ex_reg2) = snd ex_reg2"
proof -
  have sized: "array_sized [User 0, User 0]"
    by (simp add: array_sized_def)
  from off_removes_first_occurrence [OF ex_reg2_get sized, of "User 0"]
       off_removes_first_occurrence [OF ex_reg2_get sized, of "User 1"]
  show ?thesis by simp
qed

text \<open>
  Claim C3, as stated, fails: \<^verbatim>\<open>off(type)\<close> on a key without an entry creates nothing.
\<close>

theorem off_no_handler_no_entry_counterexample:
  "all atch foo = None \<and> all_get (off foo None atch) foo \<noteq> Some []"
  by (simp add: atch_def off_def all_get_def)

text \<open>
  Claim C3, amended. When the key has no entry, \<^verbatim>\<open>off(type)\<close> changes nothing. When it has
  one, the key is mapped to a new empty array: a reference that no key held before; the
  array stored before keeps its contents, and every other key reads as before.
\<close>

theorem off_without_handler:
  assumes "well_formed s"
  shows "(all s t = None \<longrightarrow> off t None s = s)
       \<and> (\<forall>r. all s t = Some r \<longrightarrow>
            all_get (off t None s) t = Some []
          \<and> all (off t None s) t = Some (next_ref s)
          \<and> (\<forall>t'. all s t' \<noteq> Some (next_ref s))
          \<and> heap (off t None s) r = heap s r
          \<and> (\<forall>t'. t' \<noteq> t \<longrightarrow> all_get (off t None s) t' = all_get s t'))"
proof -
  have fresh: "all s t' \<noteq> Some (next_ref s)" for t'
    using assms by (auto simp: well_formed_def)
  show ?thesis
    using fresh by (auto simp: off_def all_set_def all_get_def split: option.splits)
qed

theorem off_without_handler_witness:
  "off foo None atch = atch
   \<and> all_get (off foo None (snd ex_reg2)) foo = Some []
   \<and> all (snd ex_reg2) foo = Some 0
   \<and> all (off foo None (snd ex_reg2)) foo = Some 1
   \<and> heap (off foo None (snd ex_reg2)) 0 = [User 0, User 0]"
proof -
  have w1: "well_formed atch" by (rule well_formed_atch)
  have w2: "well_formed (snd ex_reg2)" by (simp add: ex_reg2_def ex_reg1_def well_formed_on well_formed_atch)
  have a: "all atch foo = None" by (simp add: atch_def)
  have b: "all (snd ex_reg2) foo = Some 0" "next_ref (snd ex_reg2) = 1" "heap (snd ex_reg2) 0 = [User 0, User 0]"
    by (simp_all add: ex_reg2_def ex_reg1_def on_def atch_def all_set_def)
  from off_without_handler [OF w1, of foo] off_without_handler [OF w2, of foo] a b
  show ?thesis by simp
qed

text \<open>
  Claim C4, as stated, fails: with the same function registered twice, the second call of
  the first registration's remover removes the second registration.
\<close>

theorem remover_second_call_counterexample:
  "all_get (call_remover (fst ex_reg1) (snd ex_reg2)) foo = Some [User 0]
   \<and> all_get (call_remover (fst ex_reg1) (call_remover (fst ex_reg1) (snd ex_reg2))) foo = Some []"
  by (simp add: ex_reg2_def ex_reg1_def on_def atch_def all_set_def off_def all_get_def
      to_uint32_def splice_at_def)

text \<open>
  Claim C4, amended. The remover returned by \<^verbatim>\<open>on(type, handler)\<close> performs
  \<^verbatim>\<open>off(type, handler)\<close> each time it is called, so each call removes the first occurrence
  of the handler then in the list. When the handler was not in the list before the
  registration, the first call gives back the list as it was before \<^verbatim>\<open>on\<close> and a further
  call changes nothing.
\<close>

theorem remover_performs_off:
  assumes "on t h s = (rm, s1)" and "array_sized (handlers_of s1 t)"
  shows "call_remover rm s' = off t (Some h) s'
       \<and> all_get (call_remover rm s1) t = Some (remove1 h (handlers_of s t @ [h]))
       \<and> (h \<notin> set (handlers_of s t) \<longrightarrow>
            all_get (call_remover rm s1) t = Some (handlers_of s t)
          \<and> call_remover rm (call_remover rm s1) = call_remover rm s1)"
proof -
  from assms(1) have rm: "rm = Remover t h" and s1: "s1 = snd (on t h s)"
    by (simp_all add: on_def)
  have get1: "all_get s1 t = Some (handlers_of s t @ [h])"
    by (simp add: s1 all_get_on)
  then have sized: "array_sized (handlers_of s t @ [h])"
    using assms(2) by (simp add: handlers_of_def)
  note first = off_handler_get [OF get1 sized, of h]
  have a: "call_remover rm s' = off t (Some h) s'"
    by (simp add: rm)
  have b: "all_get (call_remover rm s1) t = Some (remove1 h (handlers_of s t @ [h]))"
    using first by (simp add: rm)
  have c: "all_get (call_remover rm s1) t = Some (handlers_of s t)
      \<and> call_remover rm (call_remover rm s1) = call_remover rm s1"
    if notin: "h \<notin> set (handlers_of s t)"
  proof -
    from notin have eq: "remove1 h (handlers_of s t @ [h]) = handlers_of s t"
      by (simp add: remove1_append)
    with b have get2: "all_get (call_remover rm s1) t = Some (handlers_of s t)"
      by simp
    from sized have sized2: "array_sized (handlers_of s t)"
      by (simp add: array_sized_def)
    from off_handler_absent [OF get2 sized2 notin]
    have "off t (Some h) (call_remover rm s1) = call_remover rm s1" .
    with get2 show ?thesis by (simp add: rm)
  qed
  from a b c show ?thesis by blast
qed

theorem remover_performs_off_witness:
  "all_get (call_remover (fst ex_reg1) (snd ex_reg1)) foo = Some []
   \<and> call_remover (fst ex_reg1) (call_remover (fst ex_reg1) (snd ex_reg1))
       = call_remover (fst ex_reg1) (snd ex_reg1)"
proof -
  have a: "on foo (User 0) atch = (fst ex_reg1, snd ex_reg1)"
    by (simp add: ex_reg1_def)
  have h0: "handlers_of atch foo = []"
    by (rule handlers_of_atch)
  have b: "array_sized (handlers_of (snd ex_reg1) foo)"
    by (simp add: ex_reg1_def handlers_of_on h0 array_sized_def)
  have notin: "User 0 \<notin> set (handlers_of atch foo)"
    by (simp add: h0)
  from remover_performs_off [OF a b, of "snd ex_reg1"] notin
  have "all_get (call_remover (fst ex_reg1) (snd ex_reg1)) foo = Some (handlers_of atch foo)
      \<and> call_remover (fst ex_reg1) (call_remover (fst ex_reg1) (snd ex_reg1))
          = call_remover (fst ex_reg1) (snd ex_reg1)"
    by blast
  then show ?thesis by (simp only: h0)
qed

section \<open>Dispatch\<close>


lemma type_phase_direct:
  assumes "call_logs d c" and "type_phase c t evt s = Normal s1"
  shows "trace s1 = trace s @ new_events s s1
       \<and> (\<forall>e\<in>set (new_events s s1). d \<le> depth e)
       \<and> direct d (new_events s s1) = map (\<lambda>h. Invoke d h [evt]) (handlers_of s t)"
proof (cases "all_get s t")
  case None
  with assms(2) show ?thesis
    by (simp add: type_phase_def handlers_of_def new_events_def direct_def)
next
  case (Some hs)
  with assms(2) have "map_handlers c hs [evt] s = Normal s1"
    by (simp add: type_phase_def)
  from map_handlers_Normal [OF assms(1) this] Some show ?thesis
    by (auto simp: handlers_of_def new_events_append)
qed

lemma wildcard_phase_direct:
  assumes "call_logs d c" and "wildcard_phase c t evt s = Normal s1"
  shows "trace s1 = trace s @ new_events s s1
       \<and> (\<forall>e\<in>set (new_events s s1). d \<le> depth e)
       \<and> direct d (new_events s s1) = map (\<lambda>h. Invoke d h [KeyVal t, evt]) (handlers_of s wildcard)"
proof (cases "all_get s wildcard")
  case None
  with assms(2) show ?thesis
    by (simp add: wildcard_phase_def handlers_of_def new_events_def direct_def)
next
  case (Some hs)
  with assms(2) have "map_handlers c hs [KeyVal t, evt] s = Normal s1"
    by (simp add: wildcard_phase_def)
  from map_handlers_Normal [OF assms(1) this] Some show ?thesis
    by (auto simp: handlers_of_def new_events_append)
qed



lemma map_handlers_append:
  "map_handlers c (hs1 @ hs2) args s =
     (case map_handlers c hs1 args s of Normal s0 \<Rightarrow> map_handlers c hs2 args s0 | r \<Rightarrow> r)"
  by (induction hs1 arbitrary: s) (simp_all split: outcome.splits)

lemma map_handlers_throw_at:
  assumes "map_handlers (invoke f P d) hs1 args s = Normal s0"
    and "invoke f P d h args s0 = Threw v s2"
  shows "map_handlers (invoke f P d) (hs1 @ h # hs2) args s = Threw v s2"
    and "trace s2 = trace s @ new_events s s2"
    and "direct d (new_events s s2) = map (\<lambda>h. Invoke d h args) (hs1 @ [h])"
proof -
  show "map_handlers (invoke f P d) (hs1 @ h # hs2) args s = Threw v s2"
    by (simp add: map_handlers_append assms)
  from map_handlers_Normal [OF invoke_logs assms(1)] obtain es1 where
    es1: "trace s0 = trace s @ es1"
    and dir1: "direct d es1 = map (\<lambda>h. Invoke d h args) hs1"
    by blast
  from invoke_logs [of d f P] assms(2) obtain es2 where
    es2: "trace s2 = trace s0 @ Invoke d h args # es2" and deep: "\<forall>e\<in>set es2. d < depth e"
    unfolding call_logs_def by (metis final.simps(2))
  have tr: "trace s2 = trace s @ es1 @ Invoke d h args # es2"
    by (simp add: es1 es2)
  then have ne: "new_events s s2 = es1 @ Invoke d h args # es2"
    by (rule new_events_append)
  from tr ne show "trace s2 = trace s @ new_events s s2" by simp
  show "direct d (new_events s s2) = map (\<lambda>h. Invoke d h args) (hs1 @ [h])"
    by (simp add: ne direct_append direct_Cons direct_deeper [OF deep] dir1)
qed

text \<open>
  Claim C8. When a handler of the copied list throws, after the handlers before it have
  returned, \<^verbatim>\<open>emit\<close> ends with that exception in the state the throwing handler left: at the
  depth of the emission the calls made are those of the handlers up to the throwing one,
  so the rest of the list is skipped, and with it the whole wildcard round when the throw
  happens in the type-specific round.
\<close>

theorem throw_aborts_emission:
  "(all_get s t = Some (hs1 @ h # hs2)
      \<and> map_handlers (invoke f P d) hs1 [evt] s = Normal s0
      \<and> invoke f P d h [evt] s0 = Threw v s2
     \<longrightarrow> emit f P d t evt s = Threw v s2
        \<and> direct d (new_events s s2) = map (\<lambda>h. Invoke d h [evt]) (hs1 @ [h]))
   \<and> (type_phase (invoke f P d) t evt s = Normal s1
      \<and> all_get s1 wildcard = Some (ws1 @ w # ws2)
      \<and> map_handlers (invoke f P d) ws1 [KeyVal t, evt] s1 = Normal s0'
      \<and> invoke f P d w [KeyVal t, evt] s0' = Threw v' s2'
     \<longrightarrow> emit f P d t evt s = Threw v' s2'
        \<and> direct d (new_events s1 s2') = map (\<lambda>h. Invoke d h [KeyVal t, evt]) (ws1 @ [w]))"
proof (intro conjI impI)
  assume a: "all_get s t = Some (hs1 @ h # hs2)
      \<and> map_handlers (invoke f P d) hs1 [evt] s = Normal s0
      \<and> invoke f P d h [evt] s0 = Threw v s2"
  then have pre: "map_handlers (invoke f P d) hs1 [evt] s = Normal s0"
    and thr: "invoke f P d h [evt] s0 = Threw v s2" by simp_all
  from a map_handlers_throw_at(1) [OF pre thr, of hs2]
  show "emit f P d t evt s = Threw v s2"
    by (simp add: emit_def emit_with_def type_phase_def)
  from map_handlers_throw_at(3) [OF pre thr]
  show "direct d (new_events s s2) = map (\<lambda>h. Invoke d h [evt]) (hs1 @ [h])" .
next
  assume a: "type_phase (invoke f P d) t evt s = Normal s1
      \<and> all_get s1 wildcard = Some (ws1 @ w # ws2)
      \<and> map_handlers (invoke f P d) ws1 [KeyVal t, evt] s1 = Normal s0'
      \<and> invoke f P d w [KeyVal t, evt] s0' = Threw v' s2'"
  then have pre: "map_handlers (invoke f P d) ws1 [KeyVal t, evt] s1 = Normal s0'"
    and thr: "invoke f P d w [KeyVal t, evt] s0' = Threw v' s2'" by simp_all
  from a map_handlers_throw_at(1) [OF pre thr, of ws2]
  show "emit f P d t evt s = Threw v' s2'"
    by (simp add: emit_def emit_with_def wildcard_phase_def)
  from map_handlers_throw_at(3) [OF pre thr]
  show "direct d (new_events s1 s2') = map (\<lambda>h. Invoke d h [KeyVal t, evt]) (ws1 @ [w])" .
qed

text \<open>
  Claim C2, amended. Each of the two rounds of an emission calls exactly the handlers its
  list held when the round started, whatever the handlers do to the map meanwhile: the
  type-specific list is read before any handler runs, the wildcard list when the
  type-specific round has returned. The closure of \<^verbatim>\<open>once\<close> first removes itself from the
  live list of its key and then calls the handler it wraps.
\<close>

theorem phase_snapshots:
  "(type_phase (invoke f P d) t evt s = Normal s1
      \<longrightarrow> direct d (new_events s s1) = map (\<lambda>h. Invoke d h [evt]) (handlers_of s t))
   \<and> (wildcard_phase (invoke f P d) t evt s1 = Normal s'
      \<longrightarrow> direct d (new_events s1 s')
            = map (\<lambda>w. Invoke d w [KeyVal t, evt]) (handlers_of s1 wildcard))
   \<and> invoke (Suc f) P d (OnceHandler n k g) args s0
        = invoke f P (Suc d) g [arg args 0, arg args 1]
            (off k (Some (OnceHandler n k g)) (log (Invoke d (OnceHandler n k g) args) s0))
   \<and> (all_get s0 k = Some xs \<and> array_sized xs
      \<longrightarrow> all_get (off k (Some (OnceHandler n k g)) (log (Invoke d (OnceHandler n k g) args) s0)) k
            = Some (remove1 (OnceHandler n k g) xs))"
proof (intro conjI impI)
  assume "type_phase (invoke f P d) t evt s = Normal s1"
  from type_phase_direct [OF invoke_logs this]
  show "direct d (new_events s s1) = map (\<lambda>h. Invoke d h [evt]) (handlers_of s t)" by simp
next
  assume "wildcard_phase (invoke f P d) t evt s1 = Normal s'"
  from wildcard_phase_direct [OF invoke_logs this]
  show "direct d (new_events s1 s') = map (\<lambda>w. Invoke d w [KeyVal t, evt]) (handlers_of s1 wildcard)"
    by simp
next
  show "invoke (Suc f) P d (OnceHandler n k g) args s0
        = invoke f P (Suc d) g [arg args 0, arg args 1]
            (off k (Some (OnceHandler n k g)) (log (Invoke d (OnceHandler n k g) args) s0))"
    by simp
next
  assume a: "all_get s0 k = Some xs \<and> array_sized xs"
  then have "all_get (log (Invoke d (OnceHandler n k g) args) s0) k = Some xs"
    by (simp add: all_get_def log_def cong: option.case_cong)
  with a show "all_get (off k (Some (OnceHandler n k g)) (log (Invoke d (OnceHandler n k g) args) s0)) k
            = Some (remove1 (OnceHandler n k g) xs)"
    by (simp add: off_handler_get)
qed

lemmas ex_defs = ex_three_def ex_wild_def ex_mut_def on_def atch_def all_set_def all_get_def
  foo_def bar_def wildcard_def handlers_of_def

lemma ex_three_foo: "all_get ex_three foo = Some [User 0, User 1, User 2]"
  by (simp add: ex_defs)

lemma ex_three_wild: "all_get ex_three wildcard = Some [User 2, User 1, User 0]"
  by (simp add: ex_defs)

lemma ex_three_bar: "all_get ex_three bar = None"
  by (simp add: ex_defs)

lemma all_get_logs: "all_get (logs es s) t = all_get s t"
  by (simp add: all_get_def logs_def cong: option.case_cong)

lemma all_get_trace: "all_get (s\<lparr>trace := es\<rparr>) t = all_get s t"
  by (simp add: all_get_def cong: option.case_cong)

lemma logs_logs: "logs es2 (logs es1 s) = logs (es1 @ es2) s"
  by (simp add: logs_def)

lemma new_events_logs: "new_events s (logs es s) = es"
  by (simp add: new_events_def logs_def)


theorem throw_aborts_emission_witness:
  "emit 1 P_throw 0 foo (Data 7) ex_three
     = Threw (Data 13) (logs [Invoke 0 (User 0) [Data 7], Invoke 0 (User 1) [Data 7]] ex_three)
   \<and> direct 0 (new_events ex_three
        (logs [Invoke 0 (User 0) [Data 7], Invoke 0 (User 1) [Data 7]] ex_three))
       = [Invoke 0 (User 0) [Data 7], Invoke 0 (User 1) [Data 7]]
   \<and> emit 1 P_throw 0 bar (Data 7) ex_three
     = Threw (Data 13)
         (logs [Invoke 0 (User 2) [KeyVal bar, Data 7], Invoke 0 (User 1) [KeyVal bar, Data 7]] ex_three)
   \<and> direct 0 (new_events ex_three
        (logs [Invoke 0 (User 2) [KeyVal bar, Data 7], Invoke 0 (User 1) [KeyVal bar, Data 7]] ex_three))
       = [Invoke 0 (User 2) [KeyVal bar, Data 7], Invoke 0 (User 1) [KeyVal bar, Data 7]]"
proof -
  have a1: "all_get ex_three foo = Some ([User 0] @ User 1 # [User 2])"
    by (simp add: ex_three_foo)
  have a2: "map_handlers (invoke 1 P_throw 0) [User 0] [Data 7] ex_three
      = Normal (logs [Invoke 0 (User 0) [Data 7]] ex_three)"
    by (simp add: P_throw_def log_def logs_def)
  have a3: "invoke 1 P_throw 0 (User 1) [Data 7] (logs [Invoke 0 (User 0) [Data 7]] ex_three)
      = Threw (Data 13) (logs [Invoke 0 (User 0) [Data 7], Invoke 0 (User 1) [Data 7]] ex_three)"
    by (simp add: P_throw_def log_def logs_def)
  have b1: "type_phase (invoke 1 P_throw 0) bar (Data 7) ex_three = Normal ex_three"
    by (simp add: type_phase_def ex_three_bar)
  have b2: "all_get ex_three wildcard = Some ([User 2] @ User 1 # [User 0])"
    by (simp add: ex_three_wild)
  have b3: "map_handlers (invoke 1 P_throw 0) [User 2] [KeyVal bar, Data 7] ex_three
      = Normal (logs [Invoke 0 (User 2) [KeyVal bar, Data 7]] ex_three)"
    by (simp add: P_throw_def log_def logs_def)
  have b4: "invoke 1 P_throw 0 (User 1) [KeyVal bar, Data 7]
        (logs [Invoke 0 (User 2) [KeyVal bar, Data 7]] ex_three)
      = Threw (Data 13)
          (logs [Invoke 0 (User 2) [KeyVal bar, Data 7], Invoke 0 (User 1) [KeyVal bar, Data 7]] ex_three)"
    by (simp add: P_throw_def log_def logs_def)
  from throw_aborts_emission [where s = ex_three and t = foo and ?hs1.0 = "[User 0]"
      and h = "User 1" and ?hs2.0 = "[User 2]" and f = 1 and P = P_throw and d = 0
      and evt = "Data 7" and ?s0.0 = "logs [Invoke 0 (User 0) [Data 7]] ex_three" and v = "Data 13"
      and ?s2.0 = "logs [Invoke 0 (User 0) [Data 7], Invoke 0 (User 1) [Data 7]] ex_three"]
    a1 a2 a3
  have A: "emit 1 P_throw 0 foo (Data 7) ex_three
     = Threw (Data 13) (logs [Invoke 0 (User 0) [Data 7], Invoke 0 (User 1) [Data 7]] ex_three)
   \<and> direct 0 (new_events ex_three
        (logs [Invoke 0 (User 0) [Data 7], Invoke 0 (User 1) [Data 7]] ex_three))
       = [Invoke 0 (User 0) [Data 7], Invoke 0 (User 1) [Data 7]]"
    by simp
  from throw_aborts_emission [where s = ex_three and t = bar and f = 1 and P = P_throw and d = 0
      and evt = "Data 7" and ?s1.0 = ex_three and ?ws1.0 = "[User 2]" and w = "User 1"
      and ?ws2.0 = "[User 0]" and ?s0' = "logs [Invoke 0 (User 2) [KeyVal bar, Data 7]] ex_three"
      and v' = "Data 13"
      and ?s2' = "logs [Invoke 0 (User 2) [KeyVal bar, Data 7], Invoke 0 (User 1) [KeyVal bar, Data 7]] ex_three"]
    b1 b2 b3 b4
  have B: "emit 1 P_throw 0 bar (Data 7) ex_three
     = Threw (Data 13)
         (logs [Invoke 0 (User 2) [KeyVal bar, Data 7], Invoke 0 (User 1) [KeyVal bar, Data 7]] ex_three)
   \<and> direct 0 (new_events ex_three
        (logs [Invoke 0 (User 2) [KeyVal bar, Data 7], Invoke 0 (User 1) [KeyVal bar, Data 7]] ex_three))
       = [Invoke 0 (User 2) [KeyVal bar, Data 7], Invoke 0 (User 1) [KeyVal bar, Data 7]]"
    by simp
  from A B show ?thesis by blast
qed

lemmas off_eval = off_def to_uint32_def splice_at_def Let_def

lemma ex_mut_type:
  "type_phase (invoke 1 P_mut 0) foo (Data 7) ex_mut = Normal ex_mut_mid"
  by (simp add: ex_mut_mid_def type_phase_def ex_defs P_mut_def log_def off_eval)

lemma ex_mut_emit:
  "emit 1 P_mut 0 foo (Data 7) ex_mut = Normal ex_mut_end"
  by (simp add: ex_mut_end_def emit_def emit_with_def type_phase_def wildcard_phase_def
      ex_defs P_mut_def log_def off_eval)

text \<open>
  Claim C2, as stated, fails: a wildcard handler that a type-specific handler registers
  during an emission is called in that same emission.
\<close>

theorem emission_sees_added_wildcard_counterexample:
  "handlers_of ex_mut wildcard = []
   \<and> map_option trace (final (emit 1 P_mut 0 foo (Data 7) ex_mut))
       = Some [Invoke 0 (User 0) [Data 7], Invoke 0 (User 1) [Data 7],
               Invoke 0 (User 3) [KeyVal foo, Data 7]]"
  by (simp add: emit_def emit_with_def type_phase_def wildcard_phase_def
      ex_defs P_mut_def log_def off_eval)

theorem phase_snapshots_witness:
  "handlers_of ex_mut foo = [User 0, User 1]
   \<and> handlers_of ex_mut_mid foo = [User 0, User 2]
   \<and> direct 0 (new_events ex_mut ex_mut_mid)
       = [Invoke 0 (User 0) [Data 7], Invoke 0 (User 1) [Data 7]]
   \<and> handlers_of ex_mut_mid wildcard = [User 3]
   \<and> direct 0 (new_events ex_mut_mid ex_mut_end) = [Invoke 0 (User 3) [KeyVal foo, Data 7]]
   \<and> all_get ex_once foo = Some [OnceHandler 0 foo (User 0)]
   \<and> all_get (off foo (Some (OnceHandler 0 foo (User 0)))
        (log (Invoke 0 (OnceHandler 0 foo (User 0)) [Data 7]) ex_once)) foo = Some []"
proof -
  have wi: "wildcard_phase (invoke 1 P_mut 0) foo (Data 7) ex_mut_mid = Normal ex_mut_end"
    using ex_mut_emit ex_mut_type by (simp add: emit_def emit_with_def)
  have h1: "handlers_of ex_mut foo = [User 0, User 1]"
    by (simp add: ex_defs)
  have h2: "handlers_of ex_mut_mid foo = [User 0, User 2]"
    by (simp add: ex_mut_mid_def type_phase_def ex_defs P_mut_def log_def off_eval)
  have h3: "handlers_of ex_mut_mid wildcard = [User 3]"
    by (simp add: ex_mut_mid_def type_phase_def ex_defs P_mut_def log_def off_eval)
  have o1: "all_get ex_once foo = Some [OnceHandler 0 foo (User 0)]"
    by (simp add: ex_once_def once_def ex_defs)
  have o2: "array_sized [OnceHandler 0 foo (User 0)]"
    by (simp add: array_sized_def)
  from phase_snapshots [where f = 1 and P = P_mut and d = 0 and t = foo and evt = "Data 7"
      and s = ex_mut and ?s1.0 = ex_mut_mid and s' = ex_mut_end and n = 0 and k = foo
      and g = "User 0" and args = "[Data 7]" and ?s0.0 = ex_once
      and xs = "[OnceHandler 0 foo (User 0)]"]
    ex_mut_type wi h1 h2 h3 o1 o2
  show ?thesis by simp
qed

section \<open>What an emission leaves unchanged\<close>

lemma frame_refl: "frame s s"
  by (simp add: frame_def)

lemma frame_trans: "frame s s1 \<Longrightarrow> frame s1 s2 \<Longrightarrow> frame s s2"
proof -
  assume a: "frame s s1" and b: "frame s1 s2"
  from a have "s1 = s\<lparr>trace := trace s1\<rparr>" by (simp add: frame_def)
  moreover from b have "s2 = s1\<lparr>trace := trace s2\<rparr>" by (simp add: frame_def)
  ultimately have "s2 = s\<lparr>trace := trace s1\<rparr>\<lparr>trace := trace s2\<rparr>" by simp
  then have "s2 = s\<lparr>trace := trace s2\<rparr>" by simp
  then show ?thesis by (simp add: frame_def)
qed

lemma frame_log: "frame s (log e s)"
  by (simp add: frame_def log_def)

lemma grows_new_events:
  assumes "grows d s s1" and "grows d s1 s2"
  shows "new_events s s2 = new_events s s1 @ new_events s1 s2"
  using assms unfolding grows_def new_events_def by auto

lemma quiet_parts:
  assumes "grows d s s1" and "grows d s1 s2"
    and "\<forall>e\<in>set (new_events s s2). quiet_event P e"
  shows "\<forall>e\<in>set (new_events s s1). quiet_event P e"
    and "\<forall>e\<in>set (new_events s1 s2). quiet_event P e"
  using assms(3) by (simp_all add: grows_new_events [OF assms(1,2)])

lemma map_handlers_frame:
  assumes "call_logs d c" and "call_frame P c"
    and "final (map_handlers c hs args s) = Some s'"
    and "\<forall>e\<in>set (new_events s s'). quiet_event P e"
  shows "frame s s'"
  using assms(3,4)
proof (induction hs arbitrary: s)
  case Nil
  then show ?case by (simp add: frame_refl)
next
  case (Cons h hs)
  show ?case
  proof (cases "c h args s")
    case (Normal s1)
    then have f1: "final (c h args s) = Some s1" by simp
    from Normal Cons.prems(1) have f2: "final (map_handlers c hs args s1) = Some s'" by simp
    note g1 = call_logs_grows [OF assms(1) f1]
    note g2 = map_handlers_grows [OF assms(1) f2]
    note q = quiet_parts [OF g1 g2 Cons.prems(2)]
    from assms(2) f1 q(1) have "frame s s1" unfolding call_frame_def by blast
    moreover from Cons.IH [OF f2 q(2)] have "frame s1 s'" .
    ultimately show ?thesis by (rule frame_trans)
  next
    case (Threw v s1)
    with Cons.prems(1) have "final (c h args s) = Some s'" by simp
    with assms(2) Cons.prems(2) show ?thesis unfolding call_frame_def by blast
  next
    case OutOfFuel
    with Cons.prems(1) show ?thesis by simp
  qed
qed

lemma type_phase_frame:
  assumes "call_logs d c" and "call_frame P c"
    and "final (type_phase c t evt s) = Some s'"
    and "\<forall>e\<in>set (new_events s s'). quiet_event P e"
  shows "frame s s'"
  using assms(3,4) map_handlers_frame [OF assms(1,2)]
  by (auto simp: type_phase_def frame_refl split: option.splits)

lemma wildcard_phase_frame:
  assumes "call_logs d c" and "call_frame P c"
    and "final (wildcard_phase c t evt s) = Some s'"
    and "\<forall>e\<in>set (new_events s s'). quiet_event P e"
  shows "frame s s'"
  using assms(3,4) map_handlers_frame [OF assms(1,2)]
  by (auto simp: wildcard_phase_def frame_refl split: option.splits)

lemma emit_with_frame:
  assumes "call_logs d c" and "call_frame P c"
    and "final (emit_with c t evt s) = Some s'"
    and "\<forall>e\<in>set (new_events s s'). quiet_event P e"
  shows "frame s s'"
proof (cases "type_phase c t evt s")
  case (Normal s1)
  then have f1: "final (type_phase c t evt s) = Some s1" by simp
  from Normal assms(3) have f2: "final (wildcard_phase c t evt s1) = Some s'"
    by (simp add: emit_with_def)
  note g1 = type_phase_grows [OF assms(1) f1]
  note g2 = wildcard_phase_grows [OF assms(1) f2]
  note q = quiet_parts [OF g1 g2 assms(4)]
  from type_phase_frame [OF assms(1,2) f1 q(1)] wildcard_phase_frame [OF assms(1,2) f2 q(2)]
  show ?thesis by (rule frame_trans)
next
  case (Threw v s1)
  with assms(3) have "final (type_phase c t evt s) = Some s'" by (simp add: emit_with_def)
  from type_phase_frame [OF assms(1,2) this assms(4)] show ?thesis .
next
  case OutOfFuel
  with assms(3) show ?thesis by (simp add: emit_with_def)
qed

lemma perform_frame:
  assumes "call_logs d c" and "call_frame P c" and "quiet_action a"
    and "final (perform c a s) = Some s'"
    and "\<forall>e\<in>set (new_events s s'). quiet_event P e"
  shows "frame s s'"
proof (cases a)
  case (CallEmit t v)
  with assms(4) have "final (emit_with c t v s) = Some s'" by simp
  from emit_with_frame [OF assms(1,2) this assms(5)] show ?thesis .
next
  case (Throw v)
  with assms(4) show ?thesis by (simp add: frame_refl)
qed (use assms(3) in simp_all)

lemma run_frame:
  assumes "call_logs d c" and "call_frame P c" and "list_all quiet_action as"
    and "final (run c as s) = Some s'"
    and "\<forall>e\<in>set (new_events s s'). quiet_event P e"
  shows "frame s s'"
  using assms(3,4,5)
proof (induction as arbitrary: s)
  case Nil
  then show ?case by (simp add: frame_refl)
next
  case (Cons a as)
  from Cons.prems(1) have qa: "quiet_action a" and qas: "list_all quiet_action as" by simp_all
  show ?case
  proof (cases "perform c a s")
    case (Normal s1)
    then have f1: "final (perform c a s) = Some s1" by simp
    from Normal Cons.prems(2) have f2: "final (run c as s1) = Some s'" by simp
    note g1 = perform_grows [OF assms(1) f1]
    note g2 = run_grows [OF assms(1) f2]
    note q = quiet_parts [OF g1 g2 Cons.prems(3)]
    from perform_frame [OF assms(1,2) qa f1 q(1)] Cons.IH [OF qas f2 q(2)]
    show ?thesis by (rule frame_trans)
  next
    case (Threw v s1)
    with Cons.prems(2) have "final (perform c a s) = Some s'" by simp
    from perform_frame [OF assms(1,2) qa this Cons.prems(3)] show ?thesis .
  next
    case OutOfFuel
    with Cons.prems(2) show ?thesis by simp
  qed
qed

lemma invoke_frame: "call_frame P (invoke f P d)"
proof (induction f arbitrary: d)
  case 0
  show ?case by (simp add: call_frame_def)
next
  case (Suc f)
  show ?case
    unfolding call_frame_def
  proof (intro allI impI)
    fix h args s s'
    assume fin: "final (invoke (Suc f) P d h args s) = Some s'"
      and quiet: "\<forall>e\<in>set (new_events s s'). quiet_event P e"
    from invoke_logs [of d "Suc f" P] fin obtain es where
      tr: "trace s' = trace s @ Invoke d h args # es"
      unfolding call_logs_def by blast
    then have ne: "new_events s s' = Invoke d h args # es" by (rule new_events_append)
    with quiet have q0: "quiet_event P (Invoke d h args)" by simp
    show "frame s s'"
    proof (cases h)
      case (User k)
      let ?s0 = "log (Invoke d h args) s"
      from q0 User have body: "list_all quiet_action (P k args)" by simp
      from fin User have f1: "final (run (invoke f P (Suc d)) (P k args) ?s0) = Some s'"
        by simp
      have "new_events ?s0 s' = es" using tr by (simp add: new_events_def log_def)
      with quiet ne have q1: "\<forall>e\<in>set (new_events ?s0 s'). quiet_event P e" by simp
      from run_frame [OF invoke_logs Suc.IH body f1 q1] have "frame ?s0 s'" .
      with frame_log show ?thesis by (rule frame_trans)
    next
      case (OnceHandler n t g)
      with q0 show ?thesis by simp
    qed
  qed
qed

text \<open>
  Claim C9. If every function called during \<^verbatim>\<open>emit(type, p)\<close> is a caller's function whose
  body only emits or throws, then, whether \<^verbatim>\<open>emit\<close> returns or ends with an exception, the
  map and every array are as before: same keys, same lists, and a key without an entry
  still has none.
\<close>

theorem emit_leaves_registry:
  assumes "final (emit f P d t evt s) = Some s'"
    and "\<forall>e\<in>set (new_events s s'). quiet_event P e"
  shows "all s' = all s \<and> heap s' = heap s \<and> all_get s' = all_get s
       \<and> (all s t = None \<longrightarrow> all s' t = None)"
proof -
  from assms(1) have "final (emit_with (invoke f P d) t evt s) = Some s'"
    by (simp add: emit_def)
  from emit_with_frame [OF invoke_logs invoke_frame this assms(2)] have "frame s s'" .
  then have eq: "s' = s\<lparr>trace := trace s'\<rparr>" by (simp add: frame_def)
  have a: "all s' = all s" using arg_cong [OF eq, of all] by simp
  have h: "heap s' = heap s" using arg_cong [OF eq, of heap] by simp
  have "all_get s' = all_get s" by (rule ext) (simp add: all_get_def a h cong: option.case_cong)
  with a h show ?thesis by simp
qed

lemma ex_quiet_emit:
  "emit 2 P_again 0 foo (Data 7) ex_quiet = Threw (Data 13) ex_quiet_end"
  by (simp add: emit_def emit_with_def type_phase_def wildcard_phase_def ex_quiet_def ex_quiet_end_def
      ex_defs P_again_def log_def logs_def eval_nat_numeral cong: option.case_cong)

theorem emit_leaves_registry_witness:
  "emit 2 P_again 0 foo (Data 7) ex_quiet = Threw (Data 13) ex_quiet_end
   \<and> all ex_quiet_end = all ex_quiet \<and> heap ex_quiet_end = heap ex_quiet
   \<and> all atch bar = None
   \<and> final (emit 2 P_again 0 bar (Data 7) atch) = Some atch"
proof -
  have f1: "final (emit 2 P_again 0 foo (Data 7) ex_quiet) = Some ex_quiet_end"
    by (simp add: ex_quiet_emit)
  have q1: "\<forall>e\<in>set (new_events ex_quiet ex_quiet_end). quiet_event P_again e"
    by (simp add: ex_quiet_end_def new_events_logs P_again_def)
  have f2: "final (emit 2 P_again 0 bar (Data 7) atch) = Some atch"
    by (simp add: emit_def emit_with_def type_phase_def wildcard_phase_def ex_defs)
  have q2: "\<forall>e\<in>set (new_events atch atch). quiet_event P_again e"
    by (simp add: new_events_def)
  have n: "all atch bar = None"
    by (simp add: atch_def)
  from emit_leaves_registry [OF f1 q1] emit_leaves_registry [OF f2 q2] ex_quiet_emit f2 n
  show ?thesis by simp
qed

section \<open>\<^verbatim>\<open>once\<close>\<close>

lemma logs_Nil: "logs [] s = s"
  by (simp add: logs_def)

lemma log_logs: "log e s = logs [e] s"
  by (simp add: log_def logs_def)

lemma off_logs: "off t ho (logs es s) = logs es (off t ho s)"
  by (simp add: off_def logs_def all_set_def split: option.splits)

lemma handlers_of_logs: "handlers_of (logs es s) t = handlers_of s t"
  by (simp add: handlers_of_def all_get_logs)

lemma invoke_idle_fn:
  assumes "idle P g"
  shows "invoke (Suc f) P d g args s = Normal (logs [Invoke d g args] s)"
  using assms by (cases g) (simp_all add: log_logs)

lemma map_handlers_idle:
  assumes "\<forall>g\<in>set gs. idle P g"
  shows "map_handlers (invoke (Suc f) P d) gs args s
           = Normal (logs (map (\<lambda>h. Invoke d h args) gs) s)"
  using assms
proof (induction gs arbitrary: s)
  case Nil
  then show ?case by (simp add: logs_Nil)
next
  case (Cons g gs)
  then show ?case by (simp add: invoke_idle_fn logs_logs)
qed

lemma type_phase_idle:
  assumes "\<forall>g\<in>set (handlers_of s t). idle P g"
  shows "type_phase (invoke (Suc f) P d) t evt s
           = Normal (logs (map (\<lambda>h. Invoke d h [evt]) (handlers_of s t)) s)"
proof (cases "all_get s t")
  case None
  then show ?thesis by (simp add: type_phase_def handlers_of_def logs_Nil)
next
  case (Some hs)
  with assms have "\<forall>g\<in>set hs. idle P g" by (simp add: handlers_of_def)
  from map_handlers_idle [OF this] Some show ?thesis
    by (simp add: type_phase_def handlers_of_def)
qed

lemma wildcard_phase_idle:
  assumes "\<forall>g\<in>set (handlers_of s wildcard). idle P g"
  shows "wildcard_phase (invoke (Suc f) P d) t evt s
           = Normal (logs (map (\<lambda>w. Invoke d w [KeyVal t, evt]) (handlers_of s wildcard)) s)"
proof (cases "all_get s wildcard")
  case None
  then show ?thesis by (simp add: wildcard_phase_def handlers_of_def logs_Nil)
next
  case (Some ws)
  with assms have "\<forall>g\<in>set ws. idle P g" by (simp add: handlers_of_def)
  from map_handlers_idle [OF this] Some show ?thesis
    by (simp add: wildcard_phase_def handlers_of_def)
qed

lemma emit_with_idle:
  assumes "\<forall>g\<in>set (handlers_of s t). idle P g"
    and "\<forall>g\<in>set (handlers_of s wildcard). idle P g"
  shows "emit_with (invoke (Suc f) P d) t evt s
           = Normal (logs (emit_events d t evt (handlers_of s t) (handlers_of s wildcard)) s)"
proof -
  let ?s1 = "logs (map (\<lambda>h. Invoke d h [evt]) (handlers_of s t)) s"
  from assms(2) have "\<forall>g\<in>set (handlers_of ?s1 wildcard). idle P g"
    by (simp add: handlers_of_logs)
  from wildcard_phase_idle [OF this] type_phase_idle [OF assms(1)] show ?thesis
    by (simp add: emit_with_def handlers_of_logs logs_logs emit_events_def)
qed

lemma run_reemits_idle:
  assumes "\<forall>g\<in>set (handlers_of s t). idle P g"
    and "\<forall>g\<in>set (handlers_of s wildcard). idle P g"
    and "\<forall>a\<in>set as. emits_only t a"
  shows "run (invoke (Suc f) P d) as s
           = Normal (logs (reemit_events d (handlers_of s t) (handlers_of s wildcard) as) s)"
  using assms
proof (induction as arbitrary: s)
  case Nil
  then show ?case by (simp add: logs_Nil)
next
  case (Cons a as)
  from Cons.prems(3) obtain v where a: "a = CallEmit t v"
    by (cases a) auto
  let ?s1 = "logs (emit_events d t v (handlers_of s t) (handlers_of s wildcard)) s"
  have step: "perform (invoke (Suc f) P d) a s = Normal ?s1"
    using emit_with_idle [OF Cons.prems(1,2)] by (simp add: a)
  have "run (invoke (Suc f) P d) as ?s1
      = Normal (logs (reemit_events d (handlers_of ?s1 t) (handlers_of ?s1 wildcard) as) ?s1)"
    using Cons.prems by (intro Cons.IH) (simp_all add: handlers_of_logs)
  with step show ?case
    by (simp add: a handlers_of_logs logs_logs)
qed

lemma once_then_off_handlers:
  assumes "well_formed s" and "w = OnceHandler (next_fn s) t h" and "w \<notin> set (handlers_of s t)"
    and "array_sized (handlers_of s t @ [w])"
  shows "handlers_of (snd (once t h s)) t = handlers_of s t @ [w]"
    and "handlers_of (off t (Some w) (snd (once t h s))) k = handlers_of s k"
proof -
  let ?s' = "s\<lparr>next_fn := Suc (next_fn s)\<rparr>"
  let ?s0 = "snd (once t h s)"
  have s0: "?s0 = snd (on t w ?s')" by (simp add: once_def assms(2))
  have hs': "handlers_of ?s' k' = handlers_of s k'" for k'
    by (simp add: handlers_of_def all_get_def cong: option.case_cong)
  show one: "handlers_of ?s0 t = handlers_of s t @ [w]"
    by (simp add: s0 handlers_of_on hs')
  show "handlers_of (off t (Some w) ?s0) k = handlers_of s k"
  proof (cases "all s t")
    case None
    then have none: "all ?s' t = None" by simp
    have fresh: "all s k \<noteq> Some (next_ref s)"
      using assms(1) by (auto simp: well_formed_def)
    show ?thesis
      using None fresh
      by (simp add: s0 on_def all_set_def off_def handlers_of_def all_get_def
          to_uint32_def splice_at_def split: option.splits)
  next
    case (Some r)
    have xs: "handlers_of s t = heap s r" using Some by (simp add: handlers_of_def all_get_def)
    have s0': "?s0 = ?s'\<lparr>heap := (heap s)(r := heap s r @ [w])\<rparr>"
      using Some by (simp add: s0 on_def)
    have r0: "all ?s0 t = Some r" and h0: "heap ?s0 r = heap s r @ [w]"
      using Some by (simp_all add: s0')
    from assms(4) have sized: "array_sized (heap ?s0 r)" by (simp add: h0 xs)
    from assms(3) have rem: "remove1 w (heap s r @ [w]) = heap s r"
      by (simp add: xs remove1_append)
    have "off t (Some w) ?s0 = ?s0\<lparr>heap := (heap ?s0)(r := remove1 w (heap ?s0 r))\<rparr>"
      using off_handler_heap [OF r0 sized] .
    then have "off t (Some w) ?s0 = ?s'\<lparr>heap := (heap s)(r := heap s r)\<rparr>"
      by (simp add: s0' rem)
    then have "off t (Some w) ?s0 = ?s'" by simp
    then show ?thesis by (simp add: hs')
  qed
qed

lemma filter_fn_of_map:
  "g \<notin> set gs \<Longrightarrow> filter (\<lambda>e. fn_of e = g) (map (\<lambda>h. Invoke d h args) gs) = []"
  by (induction gs) auto

lemma filter_fn_of_emit_events:
  "g \<notin> set hs \<Longrightarrow> g \<notin> set ws \<Longrightarrow> filter (\<lambda>e. fn_of e = g) (emit_events d t v hs ws) = []"
  by (simp add: emit_events_def filter_fn_of_map)

lemma filter_fn_of_reemit_events:
  "g \<notin> set hs \<Longrightarrow> g \<notin> set ws \<Longrightarrow> filter (\<lambda>e. fn_of e = g) (reemit_events d hs ws as) = []"
  by (induction d hs ws as rule: reemit_events.induct) (simp_all add: filter_fn_of_emit_events)

lemma arg_one: "arg [v] 0 = v" "arg [v] 1 = Undefined"
  by (simp_all add: arg_def)

lemma once_result: "once t h s = (Remover t (OnceHandler (next_fn s) t h), snd (once t h s))"
  by (simp add: once_def on_def)

lemma handlers_of_next_fn: "handlers_of (s\<lparr>next_fn := n\<rparr>) k = handlers_of s k"
  by (simp add: handlers_of_def all_get_def cong: option.case_cong)

lemma all_get_once:
  "all_get (snd (once t h s)) t = Some (handlers_of s t @ [OnceHandler (next_fn s) t h])"
  by (simp add: once_def all_get_on handlers_of_next_fn)

lemma handlers_of_once:
  "handlers_of (snd (once t h s)) t = handlers_of s t @ [OnceHandler (next_fn s) t h]"
  by (simp add: handlers_of_def [of "snd (once t h s)"] all_get_once)

lemma once_scenario:
  assumes wfs: "well_formed s"
    and w: "w = OnceHandler (next_fn s) t (User k)"
    and s0: "s0 = snd (once t (User k) s)"
    and sized: "array_sized (handlers_of s0 t)"
    and others: "\<forall>g\<in>set (handlers_of s t) \<union> set (handlers_of s wildcard). idle P g \<and> g \<noteq> User k"
    and body: "\<forall>a\<in>set (P k [p1, Undefined]). emits_only t a"
    and hs: "hs = handlers_of s t" and ws: "ws = handlers_of s wildcard"
    and s1: "s1 = logs (map (\<lambda>h. Invoke d h [p1]) hs
                   @ [Invoke d w [p1], Invoke (Suc d) (User k) [p1, Undefined]]
                   @ reemit_events (Suc (Suc d)) hs ws (P k [p1, Undefined])
                   @ map (\<lambda>g. Invoke d g [KeyVal t, p1]) ws) (off t (Some w) s0)"
  shows "handlers_of s0 t = hs @ [w]"
    and "emit (Suc (Suc (Suc f))) P d t p1 s0 = Normal s1"
    and "handlers_of s1 t = hs" and "handlers_of s1 wildcard = ws"
    and "new_events s0 s1 = map (\<lambda>h. Invoke d h [p1]) hs
                   @ [Invoke d w [p1], Invoke (Suc d) (User k) [p1, Undefined]]
                   @ reemit_events (Suc (Suc d)) hs ws (P k [p1, Undefined])
                   @ map (\<lambda>g. Invoke d g [KeyVal t, p1]) ws"
    and "emit (Suc f') P d t p2 s1 = Normal (logs (emit_events d t p2 hs ws) s1)"
proof -
  let ?c = "invoke (Suc (Suc (Suc f))) P d"
  let ?sA = "off t (Some w) s0"
  let ?ew = "Invoke d w [p1]" and ?eh = "Invoke (Suc d) (User k) [p1, Undefined]"
  let ?Lhs = "map (\<lambda>h. Invoke d h [p1]) hs"
  let ?body = "P k [p1, Undefined]"
  from others have idle_hs: "\<forall>g\<in>set hs. idle P g" and idle_ws: "\<forall>g\<in>set ws. idle P g"
    by (auto simp: hs ws)
  have notin: "w \<notin> set (handlers_of s t)"
  proof
    assume "w \<in> set (handlers_of s t)"
    with others have "idle P w" by blast
    then show False by (simp add: w)
  qed
  have list0: "handlers_of s0 t = handlers_of s t @ [w]"
    by (simp add: s0 w handlers_of_once)
  with sized have sized': "array_sized (handlers_of s t @ [w])" by simp
  note reg = once_then_off_handlers [OF wfs w notin sized']
  show h0: "handlers_of s0 t = hs @ [w]" using list0 by (simp add: hs)
  have get0: "all_get s0 t = Some (hs @ [w])"
    by (simp add: s0 hs w all_get_once)
  have hA: "handlers_of ?sA t = hs" "handlers_of ?sA wildcard = ws"
    using reg(2) by (simp_all add: s0 hs ws)
  \<comment> \<open>the handlers registered before\<close>
  have pre: "map_handlers ?c hs [p1] s0 = Normal (logs ?Lhs s0)"
    by (rule map_handlers_idle [OF idle_hs])
  \<comment> \<open>the closure of once\<close>
  let ?sY = "logs (?Lhs @ [?ew, ?eh]) ?sA"
  have sY: "log ?eh (off t (Some w) (log ?ew (logs ?Lhs s0))) = ?sY"
    by (simp add: log_logs off_logs logs_logs)
  have hY: "handlers_of ?sY t = hs" "handlers_of ?sY wildcard = ws"
    by (simp_all add: handlers_of_logs hA)
  have run: "run (invoke (Suc f) P (Suc (Suc d))) ?body ?sY
      = Normal (logs (reemit_events (Suc (Suc d)) hs ws ?body) ?sY)"
    using run_reemits_idle [of ?sY t P ?body f "Suc (Suc d)"] idle_hs idle_ws body
    by (simp add: hY)
  let ?sZ = "logs (?Lhs @ [?ew, ?eh] @ reemit_events (Suc (Suc d)) hs ws ?body) ?sA"
  have call_w: "invoke (Suc (Suc (Suc f))) P d w [p1] (logs ?Lhs s0) = Normal ?sZ"
    unfolding w invoke.simps arg_one
    using run sY by (simp add: w logs_logs)
  have ty: "type_phase ?c t p1 s0 = Normal ?sZ"
    by (simp add: type_phase_def get0 map_handlers_append pre call_w)
  have hZ: "handlers_of ?sZ wildcard = ws"
    by (simp add: handlers_of_logs hA)
  have "\<forall>g\<in>set (handlers_of ?sZ wildcard). idle P g"
    using idle_ws by (simp only: hZ)
  from wildcard_phase_idle [OF this, of "Suc (Suc f)" d t p1]
  have wi0: "wildcard_phase ?c t p1 ?sZ = Normal (logs (map (\<lambda>g. Invoke d g [KeyVal t, p1]) ws) ?sZ)"
    by (simp only: hZ)
  have s1': "s1 = logs (map (\<lambda>g. Invoke d g [KeyVal t, p1]) ws) ?sZ"
    by (simp add: s1 logs_logs)
  have wi: "wildcard_phase ?c t p1 ?sZ = Normal s1"
    unfolding s1' by (rule wi0)
  show "emit (Suc (Suc (Suc f))) P d t p1 s0 = Normal s1"
    by (simp only: emit_def emit_with_def ty wi outcome.case)
  show h1: "handlers_of s1 t = hs" and w1: "handlers_of s1 wildcard = ws"
    by (simp_all add: s1 handlers_of_logs hA)
  show "new_events s0 s1 = map (\<lambda>h. Invoke d h [p1]) hs
                   @ [Invoke d w [p1], Invoke (Suc d) (User k) [p1, Undefined]]
                   @ reemit_events (Suc (Suc d)) hs ws (P k [p1, Undefined])
                   @ map (\<lambda>g. Invoke d g [KeyVal t, p1]) ws"
    by (simp add: s1 new_events_def logs_def trace_off)
  show "emit (Suc f') P d t p2 s1 = Normal (logs (emit_events d t p2 hs ws) s1)"
    using emit_with_idle [of s1 t P f' d p2] idle_hs idle_ws
    by (simp add: emit_def h1 w1)
qed

text \<open>
  Where \<^verbatim>\<open>once\<close> does call the handler once. Take an emitter whose handlers under \<open>type\<close> and
  under the wildcard key have empty bodies and are not \<open>h\<close>, and let \<open>h\<close> emit \<open>type\<close> again, any
  number of times. After \<^verbatim>\<open>once(type, h)\<close> the first \<^verbatim>\<open>emit(type, p1)\<close> returns, and in it the
  closure of \<^verbatim>\<open>once\<close> and \<open>h\<close> are each called exactly once: the emissions that \<open>h\<close> makes
  while it runs reach the other handlers only, because the closure has left the list before
  \<open>h\<close> starts. A second \<^verbatim>\<open>emit(type, p2)\<close> calls neither the closure nor \<open>h\<close>.
\<close>

lemma once_when_others_idle:
  assumes "well_formed s"
    and "w = OnceHandler (next_fn s) t (User k)"
    and "once t (User k) s = (rm, s0)"
    and "array_sized (handlers_of s0 t)"
    and "\<forall>g\<in>set (handlers_of s t) \<union> set (handlers_of s wildcard). idle P g \<and> g \<noteq> User k"
    and "\<forall>a\<in>set (P k [p1, Undefined]). emits_only t a"
    and "s1 = logs (map (\<lambda>h. Invoke d h [p1]) (handlers_of s t)
                   @ [Invoke d w [p1], Invoke (Suc d) (User k) [p1, Undefined]]
                   @ reemit_events (Suc (Suc d)) (handlers_of s t) (handlers_of s wildcard)
                       (P k [p1, Undefined])
                   @ map (\<lambda>g. Invoke d g [KeyVal t, p1]) (handlers_of s wildcard))
                (off t (Some w) s0)"
    and "s2 = logs (emit_events d t p2 (handlers_of s t) (handlers_of s wildcard)) s1"
  shows "rm = Remover t w \<and> handlers_of s0 t = handlers_of s t @ [w]
       \<and> emit (Suc (Suc (Suc f))) P d t p1 s0 = Normal s1
       \<and> filter (\<lambda>e. fn_of e = User k) (new_events s0 s1)
           = [Invoke (Suc d) (User k) [p1, Undefined]]
       \<and> filter (\<lambda>e. fn_of e = w) (new_events s0 s1) = [Invoke d w [p1]]
       \<and> handlers_of s1 t = handlers_of s t
       \<and> emit (Suc f') P d t p2 s1 = Normal s2
       \<and> filter (\<lambda>e. fn_of e = User k) (new_events s1 s2) = []
       \<and> filter (\<lambda>e. fn_of e = w) (new_events s1 s2) = []
       \<and> invoke (Suc m) P d' w args sx
           = invoke m P (Suc d') (User k) [arg args 0, arg args 1]
               (off t (Some w) (log (Invoke d' w args) sx))"
proof -
  have mech: "invoke (Suc m) P d' w args sx
           = invoke m P (Suc d') (User k) [arg args 0, arg args 1]
               (off t (Some w) (log (Invoke d' w args) sx))"
    by (simp add: assms(2))
  from assms(3) have s0: "s0 = snd (once t (User k) s)" by simp
  from assms(3) once_result [of t "User k" s] assms(2) have rm: "rm = Remover t w" by simp
  note sc = once_scenario [OF assms(1,2) s0 assms(4,5,6) refl refl assms(7)]
  from assms(5) have k: "User k \<notin> set (handlers_of s t)" "User k \<notin> set (handlers_of s wildcard)"
    by auto
  have "\<not> idle P w" by (simp add: assms(2))
  with assms(5) have w: "w \<notin> set (handlers_of s t)" "w \<notin> set (handlers_of s wildcard)"
    by blast+
  have wk: "w \<noteq> User k" by (simp add: assms(2))
  have fk: "filter (\<lambda>e. fn_of e = User k) (new_events s0 s1)
           = [Invoke (Suc d) (User k) [p1, Undefined]]"
    using k wk by (simp add: sc(5) filter_fn_of_map filter_fn_of_reemit_events)
  have fw: "filter (\<lambda>e. fn_of e = w) (new_events s0 s1) = [Invoke d w [p1]]"
    using w wk by (simp add: sc(5) filter_fn_of_map filter_fn_of_reemit_events)
  have ne2: "new_events s1 s2 = emit_events d t p2 (handlers_of s t) (handlers_of s wildcard)"
    by (simp add: assms(8) new_events_logs)
  have f2: "filter (\<lambda>e. fn_of e = User k) (new_events s1 s2) = []"
       "filter (\<lambda>e. fn_of e = w) (new_events s1 s2) = []"
    using k w by (simp_all add: ne2 filter_fn_of_emit_events)
  from sc(6) [of f' p2] have e2: "emit (Suc f') P d t p2 s1 = Normal s2"
    by (simp add: assms(8))
  from rm sc(1,2,3) fk fw e2 f2 mech show ?thesis by simp
qed

lemma well_formed_on_all: "well_formed s \<Longrightarrow> well_formed (on_all t hs s)"
  by (induction hs arbitrary: s) (simp_all add: well_formed_on)

lemma ex_three_handlers:
  "handlers_of ex_three foo = [User 0, User 1, User 2]"
  "handlers_of ex_three wildcard = [User 2, User 1, User 0]"
  by (simp_all add: handlers_of_def ex_three_foo ex_three_wild)

lemma once_when_others_idle_example:
  "once foo (User 5) ex_three = (Remover foo ex_fire_w, ex_fire_s0)
   \<and> handlers_of ex_fire_s0 foo = [User 0, User 1, User 2, ex_fire_w]
   \<and> emit (Suc (Suc (Suc 0))) P_reemit 0 foo (Data 7) ex_fire_s0 = Normal ex_fire_s1
   \<and> filter (\<lambda>e. fn_of e = User 5) (new_events ex_fire_s0 ex_fire_s1)
       = [Invoke 1 (User 5) [Data 7, Undefined]]
   \<and> handlers_of ex_fire_s1 foo = [User 0, User 1, User 2]
   \<and> emit (Suc 0) P_reemit 0 foo (Data 9) ex_fire_s1 = Normal ex_fire_s2
   \<and> filter (\<lambda>e. fn_of e = User 5) (new_events ex_fire_s1 ex_fire_s2) = []"
proof -
  have wf: "well_formed ex_three"
    unfolding ex_three_def ex_wild_def by (intro well_formed_on_all well_formed_atch)
  have nf: "next_fn ex_three = 0"
    by (simp add: ex_defs)
  have w: "ex_fire_w = OnceHandler (next_fn ex_three) foo (User 5)"
    by (simp add: ex_fire_w_def nf)
  have once: "once foo (User 5) ex_three = (Remover foo ex_fire_w, ex_fire_s0)"
    unfolding ex_fire_s0_def w by (rule once_result)
  have sized: "array_sized (handlers_of ex_fire_s0 foo)"
    by (simp add: ex_fire_s0_def handlers_of_once ex_three_handlers array_sized_def)
  have others: "\<forall>g\<in>set (handlers_of ex_three foo) \<union> set (handlers_of ex_three wildcard).
      idle P_reemit g \<and> g \<noteq> User 5"
    by (simp add: ex_three_handlers P_reemit_def)
  have body: "\<forall>a\<in>set (P_reemit 5 [Data 7, Undefined]). emits_only foo a"
    by (simp add: P_reemit_def)
  have s1: "ex_fire_s1 = logs (map (\<lambda>h. Invoke 0 h [Data 7]) (handlers_of ex_three foo)
                   @ [Invoke 0 ex_fire_w [Data 7], Invoke (Suc 0) (User 5) [Data 7, Undefined]]
                   @ reemit_events (Suc (Suc 0)) (handlers_of ex_three foo) (handlers_of ex_three wildcard)
                       (P_reemit 5 [Data 7, Undefined])
                   @ map (\<lambda>g. Invoke 0 g [KeyVal foo, Data 7]) (handlers_of ex_three wildcard))
                (off foo (Some ex_fire_w) ex_fire_s0)"
    by (simp add: ex_fire_s1_def ex_three_handlers P_reemit_def emit_events_def eval_nat_numeral)
  have s2: "ex_fire_s2 = logs (emit_events 0 foo (Data 9) (handlers_of ex_three foo)
                (handlers_of ex_three wildcard)) ex_fire_s1"
    by (simp add: ex_fire_s2_def ex_three_handlers emit_events_def)
  from once_when_others_idle [OF wf w once sized others body s1 s2, of 0 0] once
  show ?thesis
    by (simp add: ex_three_handlers)
qed

section \<open>Emissions whose handlers return\<close>






















section \<open>\<^verbatim>\<open>once\<close> after a handler that emits again\<close>

lemma ex_nest_lists:
  "all_get ex_nest foo = Some [User 0, OnceHandler 0 foo (User 5)]"
  "all_get ex_nest wildcard = None"
  "trace ex_nest = []"
  by (simp_all add: ex_nest_def once_def ex_defs)

lemma ex_nest_off_lists:
  "all_get (off foo (Some (OnceHandler 0 foo (User 5))) ex_nest) foo = Some [User 0]"
  "all_get (off foo (Some (OnceHandler 0 foo (User 5))) ex_nest) wildcard = None"
  "off foo (Some (OnceHandler 0 foo (User 5))) (off foo (Some (OnceHandler 0 foo (User 5))) ex_nest)
     = off foo (Some (OnceHandler 0 foo (User 5))) ex_nest"
proof -
  have sized: "array_sized [User 0, OnceHandler 0 foo (User 5)]"
    by (simp add: array_sized_def)
  from off_handler_get [OF ex_nest_lists(1) sized, of "OnceHandler 0 foo (User 5)"]
  show one: "all_get (off foo (Some (OnceHandler 0 foo (User 5))) ex_nest) foo = Some [User 0]"
    by simp
  from ex_nest_lists(2)
  show "all_get (off foo (Some (OnceHandler 0 foo (User 5))) ex_nest) wildcard = None"
    by (simp add: all_get_def off_handler_all split: option.splits)
  have "array_sized [User 0]" by (simp add: array_sized_def)
  from off_handler_absent [OF one this, of "OnceHandler 0 foo (User 5)"]
  show "off foo (Some (OnceHandler 0 foo (User 5))) (off foo (Some (OnceHandler 0 foo (User 5))) ex_nest)
     = off foo (Some (OnceHandler 0 foo (User 5))) ex_nest"
    by simp
qed

text \<open>
  Claim C6 on the code: with a handler under \<^verbatim>\<open>'foo'\<close> that emits \<^verbatim>\<open>'foo'\<close> again when called
  with 7, registered before \<^verbatim>\<open>once('foo', f5)\<close>, the first \<^verbatim>\<open>emit('foo', 7)\<close> returns and has
  called \<open>f5\<close> twice: once from the nested emission, and once more from the outer one, whose
  copy of the list still holds the closure.
\<close>

theorem once_handler_called_twice:
  "handlers_of ex_nest foo = [User 0, OnceHandler 0 foo (User 5)]
   \<and> map_option trace (final (emit 3 P_nest 0 foo (Data 7) ex_nest))
       = Some [Invoke 0 (User 0) [Data 7],
               Invoke 1 (User 0) [Data 8],
               Invoke 1 (OnceHandler 0 foo (User 5)) [Data 8],
               Invoke 2 (User 5) [Data 8, Undefined],
               Invoke 0 (OnceHandler 0 foo (User 5)) [Data 7],
               Invoke 1 (User 5) [Data 7, Undefined]]"
proof -
  let ?w = "OnceHandler 0 foo (User 5)"
  let ?off = "off foo (Some ?w) ex_nest"
  have inner: "emit_with (invoke (Suc (Suc 0)) P_nest (Suc 0)) foo (Data 8) (logs es ex_nest)
     = Normal (logs (es @ [Invoke (Suc 0) (User 0) [Data 8], Invoke (Suc 0) ?w [Data 8],
                           Invoke (Suc (Suc 0)) (User 5) [Data 8, Undefined]]) ?off)" for es
    by (simp add: emit_with_def type_phase_def wildcard_phase_def all_get_logs ex_nest_lists
        ex_nest_off_lists P_nest_def log_logs logs_logs off_logs arg_def)
  have first: "invoke (Suc (Suc (Suc 0))) P_nest 0 (User 0) [Data 7] ex_nest
     = Normal (logs [Invoke 0 (User 0) [Data 7], Invoke (Suc 0) (User 0) [Data 8],
                     Invoke (Suc 0) ?w [Data 8],
                     Invoke (Suc (Suc 0)) (User 5) [Data 8, Undefined]] ?off)"
    using inner [of "[Invoke 0 (User 0) [Data 7]]"]
    by (simp add: P_nest_def log_logs)
  have second: "invoke (Suc (Suc (Suc 0))) P_nest 0 ?w [Data 7] (logs es ?off)
     = Normal (logs (es @ [Invoke 0 ?w [Data 7], Invoke (Suc 0) (User 5) [Data 7, Undefined]]) ?off)"
    for es
    by (simp add: P_nest_def log_logs logs_logs off_logs ex_nest_off_lists arg_def)
  have "emit (Suc (Suc (Suc 0))) P_nest 0 foo (Data 7) ex_nest
     = Normal (logs [Invoke 0 (User 0) [Data 7], Invoke (Suc 0) (User 0) [Data 8],
                     Invoke (Suc 0) ?w [Data 8],
                     Invoke (Suc (Suc 0)) (User 5) [Data 8, Undefined],
                     Invoke 0 ?w [Data 7], Invoke (Suc 0) (User 5) [Data 7, Undefined]] ?off)"
    by (simp add: emit_def emit_with_def type_phase_def wildcard_phase_def ex_nest_lists
        first second all_get_logs ex_nest_off_lists del: invoke.simps)
  then have "map_option trace (final (emit (Suc (Suc (Suc 0))) P_nest 0 foo (Data 7) ex_nest))
     = Some [Invoke 0 (User 0) [Data 7], Invoke (Suc 0) (User 0) [Data 8],
                     Invoke (Suc 0) ?w [Data 8],
                     Invoke (Suc (Suc 0)) (User 5) [Data 8, Undefined],
                     Invoke 0 ?w [Data 7], Invoke (Suc 0) (User 5) [Data 7, Undefined]]"
    by (simp add: logs_def trace_off ex_nest_lists)
  moreover have "handlers_of ex_nest foo = [User 0, ?w]"
    by (simp add: handlers_of_def ex_nest_lists)
  ultimately show ?thesis by (simp add: eval_nat_numeral)
qed

end
